theory Spec2Isabelle
  imports Main "HOL-Library.AList" "HOL-Library.Sublist"
begin

section \<open>Events (parsers.py)\<close>

text \<open>
  Python text (\<^verbatim>\<open>str\<close>) is a sequence of Unicode code points; \<open>py_str\<close> is the list of their
  numbers, and \<open>text_of\<close> reads an ASCII literal as text.
\<close>

type_synonym py_str = "int list"

definition text_of :: "string \<Rightarrow> py_str" where
  "text_of s = map of_char s"

text \<open>
  The two namedtuples of \<^verbatim>\<open>parsers.py\<close>. Python integers are unbounded, hence \<open>int\<close>.
  \<^verbatim>\<open>line_no\<close> defaults to \<^verbatim>\<open>None\<close>. The fields of \<^verbatim>\<open>MoneyEvent\<close> that share a name
  with a field of \<^verbatim>\<open>InventoryEvent\<close> carry the prefix \<open>m_\<close>. The action of an inventory event
  is one of the two ASCII literals of the line pattern; \<^verbatim>\<open>raw_line\<close> is the stripped line, which
  may hold any code point.
\<close>

record InventoryEvent =
  timestamp :: int
  player_id :: int
  action :: string
  items :: "(int \<times> int) list"
  line_no :: "int option"
  raw_line :: py_str

record MoneyEvent =
  m_timestamp :: int
  m_player_id :: int
  m_action :: string
  amount :: int
  reason :: string
  m_line_no :: "int option"
  m_raw_line :: string

section \<open>Player and item state (state.py)\<close>

text \<open>
  \<^verbatim>\<open>d.get(k, 0)\<close> on a dict, which is also what reading \<^verbatim>\<open>d[k]\<close> on a
  \<^verbatim>\<open>defaultdict(int)\<close> returns.
\<close>

definition dict_get :: "('k \<rightharpoonup> int) \<Rightarrow> 'k \<Rightarrow> int \<Rightarrow> int" where
  "dict_get d k dflt = (case d k of None \<Rightarrow> dflt | Some v \<Rightarrow> v)"

text \<open>Class \<^verbatim>\<open>Player\<close>; the field \<^verbatim>\<open>player_id\<close> is \<open>p_id\<close> here.\<close>

record Player =
  p_id :: int
  name :: string
  level :: "int option"
  money :: int
  inventory :: "int \<rightharpoonup> int"
  first_event_ts :: "int option"
  last_event_ts :: "int option"

definition Player_init :: "int \<Rightarrow> string option \<Rightarrow> int option \<Rightarrow> Player" where
  "Player_init pid nm lvl =
     \<lparr>p_id = pid,
      name = (case nm of None \<Rightarrow> ''unknown'' | Some n \<Rightarrow> if n = [] then ''unknown'' else n),
      level = lvl,
      money = 0,
      inventory = Map.empty,
      first_event_ts = None,
      last_event_ts = None\<rparr>"

definition update_activity :: "Player \<Rightarrow> int \<Rightarrow> Player" where
  "update_activity p ts =
     p\<lparr>first_event_ts := (case first_event_ts p of None \<Rightarrow> Some ts | Some t \<Rightarrow> Some t),
       last_event_ts := Some ts\<rparr>"

definition apply_money :: "Player \<Rightarrow> string \<Rightarrow> int \<Rightarrow> int \<Rightarrow> Player" where
  "apply_money p act amt ts =
     (let p1 = update_activity p ts in
      if act = ''MONEY_ADD'' then p1\<lparr>money := money p1 + amt\<rparr>
      else if act = ''MONEY_REMOVE'' then p1\<lparr>money := money p1 - amt\<rparr>
      else p1)"

text \<open>
  The dict \<^verbatim>\<open>changes\<close> of \<^verbatim>\<open>Player.apply_inventory\<close> is an association list in
  insertion order: assigning to a key that is present replaces its value and keeps its place
  (\<open>AList.update\<close>), which is how a Python dict iterates. One triple is
  \<open>(delta, previous, updated)\<close>.
\<close>

type_synonym change = "int \<times> int \<times> int"

text \<open>The body of the \<^verbatim>\<open>for item_type_id, amount in items\<close> loop, then the loop.\<close>

fun apply_inventory_loop ::
  "int \<Rightarrow> (int \<times> int) list \<Rightarrow> (int \<rightharpoonup> int) \<Rightarrow> (int \<times> change) list
     \<Rightarrow> (int \<rightharpoonup> int) \<times> (int \<times> change) list" where
  "apply_inventory_loop multiplier [] stock changes = (stock, changes)"
| "apply_inventory_loop multiplier ((item_type_id, amt) # rest) stock changes =
     (let delta = multiplier * amt;
          previous = dict_get stock item_type_id 0;
          updated = previous + delta
      in apply_inventory_loop multiplier rest
           (stock(item_type_id \<mapsto> updated))
           (AList.update item_type_id (delta, previous, updated) changes))"

definition apply_inventory ::
  "Player \<Rightarrow> string \<Rightarrow> (int \<times> int) list \<Rightarrow> int \<Rightarrow> Player \<times> (int \<times> change) list" where
  "apply_inventory p act its ts =
     (let p1 = update_activity p ts;
          multiplier = (if act = ''ITEM_ADD'' then 1 else - 1);
          (stock, changes) = apply_inventory_loop multiplier its (inventory p1) []
      in (p1\<lparr>inventory := stock\<rparr>, changes))"

definition get_item_count :: "Player \<Rightarrow> int \<Rightarrow> int" where
  "get_item_count p item_type_id = dict_get (inventory p) item_type_id 0"

text \<open>
  Class \<^verbatim>\<open>PlayerRegistry\<close>: the dict \<^verbatim>\<open>_players\<close>. \<^verbatim>\<open>get\<close> creates a default player
  for an unknown id and returns the player together with the registry.
\<close>

type_synonym PlayerRegistry = "int \<rightharpoonup> Player"

definition registry_get :: "PlayerRegistry \<Rightarrow> int \<Rightarrow> Player \<times> PlayerRegistry" where
  "registry_get reg pid =
     (case reg pid of
        None \<Rightarrow> (let p = Player_init pid None None in (p, reg(pid \<mapsto> p)))
      | Some p \<Rightarrow> (p, reg))"

text \<open>Class \<^verbatim>\<open>ItemStatistics\<close>; the three counters are \<^verbatim>\<open>defaultdict(int)\<close>.\<close>

record ItemStatistics =
  totals :: "int \<rightharpoonup> int"
  owner_counts :: "int \<rightharpoonup> int"
  mentions :: "int \<rightharpoonup> int"
  first_seen_ts :: "int \<rightharpoonup> int"
  first_seen_order :: "(int \<times> int) list"

definition ItemStatistics_init :: ItemStatistics where
  "ItemStatistics_init =
     \<lparr>totals = Map.empty, owner_counts = Map.empty, mentions = Map.empty,
      first_seen_ts = Map.empty, first_seen_order = []\<rparr>"

definition register_appearance :: "ItemStatistics \<Rightarrow> int \<Rightarrow> int \<Rightarrow> ItemStatistics" where
  "register_appearance st item_type_id ts =
     (if item_type_id \<in> dom (first_seen_ts st) then st
      else st\<lparr>first_seen_ts := (first_seen_ts st)(item_type_id \<mapsto> ts),
              first_seen_order := first_seen_order st @ [(ts, item_type_id)]\<rparr>)"

definition record_delta :: "ItemStatistics \<Rightarrow> int \<Rightarrow> int \<Rightarrow> ItemStatistics" where
  "record_delta st item_type_id delta =
     st\<lparr>totals := (totals st)(item_type_id \<mapsto> dict_get (totals st) item_type_id 0 + delta)\<rparr>"

definition record_mention :: "ItemStatistics \<Rightarrow> int \<Rightarrow> ItemStatistics" where
  "record_mention st item_type_id =
     st\<lparr>mentions := (mentions st)(item_type_id \<mapsto> dict_get (mentions st) item_type_id 0 + 1)\<rparr>"

definition update_owner_count :: "ItemStatistics \<Rightarrow> int \<Rightarrow> int \<Rightarrow> int \<Rightarrow> ItemStatistics" where
  "update_owner_count st item_type_id previous updated =
     (if previous \<le> 0 \<and> updated > 0 then
        st\<lparr>owner_counts :=
             (owner_counts st)(item_type_id \<mapsto> dict_get (owner_counts st) item_type_id 0 + 1)\<rparr>
      else if previous > 0 \<and> updated \<le> 0 then
        (let oc = (owner_counts st)(item_type_id \<mapsto> dict_get (owner_counts st) item_type_id 0 - 1)
         in st\<lparr>owner_counts := (if dict_get oc item_type_id 0 < 0 then oc(item_type_id \<mapsto> 0) else oc)\<rparr>)
      else st)"

text \<open>Class \<^verbatim>\<open>GameState\<close>. \<^verbatim>\<open>item_stats or ItemStatistics()\<close> is the constructor's default.\<close>

record GameState =
  players :: PlayerRegistry
  item_stats :: ItemStatistics

definition GameState_init :: "PlayerRegistry \<Rightarrow> ItemStatistics option \<Rightarrow> GameState" where
  "GameState_init player_registry stats =
     \<lparr>players = player_registry,
      item_stats = (case stats of None \<Rightarrow> ItemStatistics_init | Some s \<Rightarrow> s)\<rparr>"

text \<open>
  The body of \<^verbatim>\<open>for item_type_id, change in changes.items()\<close> in
  \<^verbatim>\<open>GameState.apply_inventory_event\<close>, and the loop over the changes.
\<close>

definition forward_change :: "int \<Rightarrow> ItemStatistics \<Rightarrow> int \<times> change \<Rightarrow> ItemStatistics" where
  "forward_change ts st entry =
     (case entry of (item_type_id, delta, previous, updated) \<Rightarrow>
        update_owner_count
          (record_delta
             (record_mention (register_appearance st item_type_id ts) item_type_id)
             item_type_id delta)
          item_type_id previous updated)"

definition apply_inventory_event :: "GameState \<Rightarrow> InventoryEvent \<Rightarrow> GameState" where
  "apply_inventory_event gs event =
     (let (player, reg) = registry_get (players gs) (player_id event);
          (player', changes) = apply_inventory player (action event) (items event) (timestamp event)
      in \<lparr>players = reg(player_id event \<mapsto> player'),
          item_stats = foldl (forward_change (timestamp event)) (item_stats gs) changes\<rparr>)"

definition apply_money_event :: "GameState \<Rightarrow> MoneyEvent \<Rightarrow> GameState" where
  "apply_money_event gs event =
     (let (player, reg) = registry_get (players gs) (m_player_id event)
      in gs\<lparr>players := reg(m_player_id event \<mapsto>
                apply_money player (m_action event) (amount event) (m_timestamp event))\<rparr>)"

text \<open>An event of either log, and a run of the aggregation over a sequence of events.\<close>

datatype event = Inv InventoryEvent | Mon MoneyEvent

fun apply_event :: "GameState \<Rightarrow> event \<Rightarrow> GameState" where
  "apply_event gs (Inv e) = apply_inventory_event gs e"
| "apply_event gs (Mon e) = apply_money_event gs e"

definition apply_events :: "GameState \<Rightarrow> event list \<Rightarrow> GameState" where
  "apply_events gs es = foldl apply_event gs es"

subsection \<open>The inventory loop\<close>


lemma dict_get_upd:
  "dict_get (d(k \<mapsto> v)) t dflt = (if t = k then v else dict_get d t dflt)"
  by (simp add: dict_get_def)

lemma loop_stock:
  "dict_get (fst (apply_inventory_loop m its stock ch)) t 0
     = dict_get stock t 0 + m * sum_list (map snd (filter (\<lambda>p. fst p = t) its))"
proof (induction its arbitrary: stock ch)
  case Nil
  then show ?case by simp
next
  case (Cons x xs)
  obtain i a where x: "x = (i, a)" by (cases x) auto
  show ?case
    unfolding x by (simp add: Let_def Cons.IH dict_get_upd algebra_simps del: fun_upd_apply)
qed

lemma loop_keys_distinct:
  "distinct (map fst ch) \<Longrightarrow> distinct (map fst (snd (apply_inventory_loop m its stock ch)))"
proof (induction its arbitrary: stock ch)
  case Nil
  then show ?case by simp
next
  case (Cons x xs)
  obtain i a where x: "x = (i, a)" by (cases x) auto
  show ?case
    unfolding x using Cons.prems by (simp add: Let_def Cons.IH distinct_update)
qed

lemma loop_changes_other:
  "t \<notin> fst ` set its \<Longrightarrow>
     map_of (snd (apply_inventory_loop m its stock ch)) t = map_of ch t"
proof (induction its arbitrary: stock ch)
  case Nil
  then show ?case by simp
next
  case (Cons x xs)
  obtain i a where x: "x = (i, a)" by (cases x) auto
  show ?case
    using Cons.prems unfolding x by (auto simp add: Let_def Cons.IH update_conv')
qed

lemma loop_append:
  "apply_inventory_loop m (xs @ ys) stock ch =
     (case apply_inventory_loop m xs stock ch of (s1, c1) \<Rightarrow> apply_inventory_loop m ys s1 c1)"
proof (induction xs arbitrary: stock ch)
  case Nil
  then show ?case by simp
next
  case (Cons x xs)
  obtain i a where x: "x = (i, a)" by (cases x) auto
  show ?case unfolding x append_Cons apply_inventory_loop.simps Let_def
    by (rule Cons.IH)
qed

lemma loop_changes_last:
  assumes "its = pre @ (t, a) # post" and "t \<notin> fst ` set post"
  shows "map_of (snd (apply_inventory_loop m its stock ch)) t =
           Some (m * a,
                 dict_get stock t 0 + m * sum_list (map snd (filter (\<lambda>p. fst p = t) pre)),
                 dict_get stock t 0 + m * sum_list (map snd (filter (\<lambda>p. fst p = t) pre)) + m * a)"
proof -
  obtain s1 c1 where r1: "apply_inventory_loop m pre stock ch = (s1, c1)" by fastforce
  have s1: "dict_get s1 t 0 = dict_get stock t 0 + m * sum_list (map snd (filter (\<lambda>p. fst p = t) pre))"
    using loop_stock [of m pre stock ch t] r1 by simp
  show ?thesis
    unfolding assms(1) loop_append r1
    by (simp add: Let_def loop_changes_other [OF assms(2)] update_conv' s1)
qed


subsection \<open>Forwarding changes into the statistics\<close>

lemma forward_totals:
  "dict_get (totals (forward_change ts st (i, d, p, u))) t 0 =
     (if t = i then dict_get (totals st) t 0 + d else dict_get (totals st) t 0)"
  by (simp add: forward_change_def update_owner_count_def record_delta_def record_mention_def
      register_appearance_def dict_get_upd Let_def)

lemma forward_mentions:
  "dict_get (mentions (forward_change ts st (i, d, p, u))) t 0 =
     (if t = i then dict_get (mentions st) t 0 + 1 else dict_get (mentions st) t 0)"
  by (simp add: forward_change_def update_owner_count_def record_delta_def record_mention_def
      register_appearance_def dict_get_upd Let_def)

lemma update_owner_count_other:
  "t \<noteq> i \<Longrightarrow> dict_get (owner_counts (update_owner_count st i p u)) t 0
      = dict_get (owner_counts st) t 0"
  by (simp add: update_owner_count_def dict_get_upd Let_def)

lemma update_owner_count_same:
  "dict_get (owner_counts st) i 0 = dict_get (owner_counts st') i 0 \<Longrightarrow>
   dict_get (owner_counts (update_owner_count st i p u)) i 0
      = dict_get (owner_counts (update_owner_count st' i p u)) i 0"
  by (simp add: update_owner_count_def dict_get_upd Let_def)

lemma forward_owner_other:
  "t \<noteq> i \<Longrightarrow> dict_get (owner_counts (forward_change ts st (i, d, p, u))) t 0
      = dict_get (owner_counts st) t 0"
  by (simp add: forward_change_def update_owner_count_other record_delta_def record_mention_def
      register_appearance_def)

lemma forward_owner_same:
  "dict_get (owner_counts (forward_change ts st (i, d, p, u))) i 0
      = dict_get (owner_counts (update_owner_count st i p u)) i 0"
  unfolding forward_change_def prod.case
  by (rule update_owner_count_same)
     (simp add: record_delta_def record_mention_def register_appearance_def)

lemma foldl_forward_other:
  "t \<notin> fst ` set cs \<Longrightarrow>
     dict_get (totals (foldl (forward_change ts) st cs)) t 0 = dict_get (totals st) t 0
   \<and> dict_get (mentions (foldl (forward_change ts) st cs)) t 0 = dict_get (mentions st) t 0
   \<and> dict_get (owner_counts (foldl (forward_change ts) st cs)) t 0
         = dict_get (owner_counts st) t 0"
proof (induction cs arbitrary: st)
  case Nil
  then show ?case by simp
next
  case (Cons c cs)
  obtain i d p u where c: "c = (i, d, p, u)" by (cases c) auto
  have ne: "t \<noteq> i" and rest: "t \<notin> fst ` set cs"
    using Cons.prems by (auto simp: c)
  show ?case
    using Cons.IH [OF rest, of "forward_change ts st c"] ne
    by (simp add: c forward_totals forward_mentions forward_owner_other)
qed

lemma foldl_forward_once:
  assumes "cs = cs1 @ (t, d, p, u) # cs2"
    and "t \<notin> fst ` set cs1" and "t \<notin> fst ` set cs2"
  shows "dict_get (totals (foldl (forward_change ts) st cs)) t 0 = dict_get (totals st) t 0 + d"
    and "dict_get (mentions (foldl (forward_change ts) st cs)) t 0
           = dict_get (mentions st) t 0 + 1"
    and "dict_get (owner_counts (foldl (forward_change ts) st cs)) t 0
           = dict_get (owner_counts (update_owner_count st t p u)) t 0"
proof -
  let ?s1 = "foldl (forward_change ts) st cs1"
  let ?s2 = "forward_change ts ?s1 (t, d, p, u)"
  have f: "foldl (forward_change ts) st cs = foldl (forward_change ts) ?s2 cs2"
    by (simp add: assms(1))
  note a = foldl_forward_other [OF assms(2), of ts st]
  note b = foldl_forward_other [OF assms(3), of ts ?s2]
  show "dict_get (totals (foldl (forward_change ts) st cs)) t 0 = dict_get (totals st) t 0 + d"
    unfolding f using a b by (simp add: forward_totals)
  show "dict_get (mentions (foldl (forward_change ts) st cs)) t 0
           = dict_get (mentions st) t 0 + 1"
    unfolding f using a b by (simp add: forward_mentions)
  have "dict_get (owner_counts ?s2) t 0 = dict_get (owner_counts (update_owner_count ?s1 t p u)) t 0"
    by (rule forward_owner_same)
  also have "\<dots> = dict_get (owner_counts (update_owner_count st t p u)) t 0"
    by (rule update_owner_count_same) (use a in simp)
  finally show "dict_get (owner_counts (foldl (forward_change ts) st cs)) t 0
           = dict_get (owner_counts (update_owner_count st t p u)) t 0"
    unfolding f using b by simp
qed

lemma map_of_split_distinct:
  "distinct (map fst cs) \<Longrightarrow> map_of cs t = Some v \<Longrightarrow>
     \<exists>cs1 cs2. cs = cs1 @ (t, v) # cs2 \<and> t \<notin> fst ` set cs1 \<and> t \<notin> fst ` set cs2"
proof -
  assume d: "distinct (map fst cs)" and m: "map_of cs t = Some v"
  from m have "(t, v) \<in> set cs" by (rule map_of_SomeD)
  then obtain cs1 cs2 where s: "cs = cs1 @ (t, v) # cs2" by (meson split_list)
  with d have "t \<notin> fst ` set cs1 \<and> t \<notin> fst ` set cs2" by auto
  with s show ?thesis by blast
qed

subsection \<open>Owner counts\<close>

definition owners_nonneg :: "ItemStatistics \<Rightarrow> bool" where
  "owners_nonneg st = (\<forall>t. 0 \<le> dict_get (owner_counts st) t 0)"

lemma owners_nonneg_init: "owners_nonneg ItemStatistics_init"
  by (simp add: owners_nonneg_def ItemStatistics_init_def dict_get_def)

lemma owners_nonneg_update:
  "owners_nonneg st \<Longrightarrow> owners_nonneg (update_owner_count st i p u)"
  unfolding owners_nonneg_def update_owner_count_def Let_def dict_get_def
  by (auto split: option.splits)

lemma owners_nonneg_forward:
  "owners_nonneg st \<Longrightarrow> owners_nonneg (forward_change ts st c)"
proof -
  assume a: "owners_nonneg st"
  obtain i d p u where c: "c = (i, d, p, u)" by (cases c) auto
  have "owner_counts (record_delta (record_mention (register_appearance st i ts) i) i d)
          = owner_counts st"
    by (simp add: record_delta_def record_mention_def register_appearance_def)
  then have "owners_nonneg (record_delta (record_mention (register_appearance st i ts) i) i d)"
    using a by (simp add: owners_nonneg_def)
  then show ?thesis
    unfolding c forward_change_def by (simp add: owners_nonneg_update)
qed

lemma owners_nonneg_foldl:
  "owners_nonneg st \<Longrightarrow> owners_nonneg (foldl (forward_change ts) st cs)"
  by (induction cs arbitrary: st) (simp_all add: owners_nonneg_forward)

lemma owners_nonneg_event:
  "owners_nonneg (item_stats gs) \<Longrightarrow> owners_nonneg (item_stats (apply_event gs e))"
proof (cases e)
  case (Inv ie)
  assume "owners_nonneg (item_stats gs)"
  then show ?thesis
    unfolding Inv by (simp add: apply_inventory_event_def Let_def split_beta owners_nonneg_foldl)
next
  case (Mon me)
  assume "owners_nonneg (item_stats gs)"
  then show ?thesis
    unfolding Mon by (simp add: apply_money_event_def Let_def split_beta)
qed

lemma owners_nonneg_events:
  "owners_nonneg (item_stats gs) \<Longrightarrow> owners_nonneg (item_stats (apply_events gs es))"
  unfolding apply_events_def
  by (induction es arbitrary: gs) (simp_all add: owners_nonneg_event)

text \<open>
  C4. Starting from a game state with fresh item statistics, after any sequence of inventory
  and money events, applied in any order, the owner count of every item type is at least 0.
\<close>

theorem owner_counts_never_negative:
  "0 \<le> dict_get (owner_counts (item_stats (apply_events (GameState_init reg None) es))) t 0"
proof -
  have "owners_nonneg (item_stats (GameState_init reg None))"
    by (simp add: GameState_init_def owners_nonneg_init)
  then have "owners_nonneg (item_stats (apply_events (GameState_init reg None) es))"
    by (rule owners_nonneg_events)
  then show ?thesis by (simp add: owners_nonneg_def)
qed

subsection \<open>One event, one player\<close>


lemma filter_key_once:
  "t \<notin> fst ` set cs1 \<Longrightarrow> t \<notin> fst ` set cs2 \<Longrightarrow>
     filter (\<lambda>c. fst c = t) (cs1 @ (t, v) # cs2) = [(t, v)]"
proof -
  assume a: "t \<notin> fst ` set cs1" and b: "t \<notin> fst ` set cs2"
  have "filter (\<lambda>c. fst c = t) cs1 = []" using a by (auto simp: filter_empty_conv)
  moreover have "filter (\<lambda>c. fst c = t) cs2 = []" using b by (auto simp: filter_empty_conv)
  ultimately show ?thesis by simp
qed

lemma apply_inventory_count:
  "get_item_count (fst (apply_inventory p act its ts)) t =
     get_item_count p t + (if act = ''ITEM_ADD'' then 1 else - 1)
        * sum_list (map snd (filter (\<lambda>q. fst q = t) its))"
  unfolding apply_inventory_def get_item_count_def Let_def split_beta fst_conv
  using loop_stock [of "if act = ''ITEM_ADD'' then 1 else - 1" its "inventory (update_activity p ts)" "[]" t]
  by (simp add: update_activity_def)

lemma apply_inventory_changes:
  "snd (apply_inventory p act its ts) =
     snd (apply_inventory_loop (if act = ''ITEM_ADD'' then 1 else - 1) its (inventory p) [])"
  by (simp add: apply_inventory_def Let_def split_beta update_activity_def)

lemma apply_inventory_event_stats:
  "item_stats (apply_inventory_event gs e) =
     foldl (forward_change (timestamp e)) (item_stats gs)
       (snd (apply_inventory (fst (registry_get (players gs) (player_id e)))
               (action e) (items e) (timestamp e)))"
  by (simp add: apply_inventory_event_def Let_def split_beta)

lemma apply_inventory_event_player:
  "players (apply_inventory_event gs e) (player_id e) =
     Some (fst (apply_inventory (fst (registry_get (players gs) (player_id e)))
               (action e) (items e) (timestamp e)))"
  by (simp add: apply_inventory_event_def Let_def split_beta)

text \<open>
  C10. When an inventory event lists item type \<open>t\<close> in several pairs, \<open>(t, a)\<close> being the last of
  them: the player's stored count of \<open>t\<close> moves by the signed amounts of all the pairs of \<open>t\<close>,
  the changes returned by \<^verbatim>\<open>Player.apply_inventory\<close> hold exactly one entry for \<open>t\<close>, the triple
  (delta, previous, updated) of that last pair, and \<^verbatim>\<open>GameState.apply_inventory_event\<close> records
  one mention of \<open>t\<close> and forwards only the last pair's delta and owner-count transition to the
  statistics.
\<close>

theorem repeated_item_last_pair_wins:
  assumes "items e = pre @ (t, a) # post" and "t \<notin> fst ` set post"
  shows "let m = (if action e = ''ITEM_ADD'' then 1 else - 1);
             p = fst (registry_get (players gs) (player_id e));
             res = apply_inventory p (action e) (items e) (timestamp e);
             prev = get_item_count p t + m * sum_list (map snd (filter (\<lambda>q. fst q = t) pre));
             gs' = apply_inventory_event gs e
         in get_item_count (fst res) t
              = get_item_count p t + m * sum_list (map snd (filter (\<lambda>q. fst q = t) (items e)))
          \<and> players gs' (player_id e) = Some (fst res)
          \<and> filter (\<lambda>c. fst c = t) (snd res) = [(t, m * a, prev, prev + m * a)]
          \<and> dict_get (mentions (item_stats gs')) t 0 = dict_get (mentions (item_stats gs)) t 0 + 1
          \<and> dict_get (totals (item_stats gs')) t 0 = dict_get (totals (item_stats gs)) t 0 + m * a
          \<and> dict_get (owner_counts (item_stats gs')) t 0
              = dict_get (owner_counts (update_owner_count (item_stats gs) t prev (prev + m * a))) t 0"
proof -
  define m :: int where "m = (if action e = ''ITEM_ADD'' then 1 else - 1)"
  define p where "p = fst (registry_get (players gs) (player_id e))"
  define res where "res = apply_inventory p (action e) (items e) (timestamp e)"
  define prev where
    "prev = get_item_count p t + m * sum_list (map snd (filter (\<lambda>q. fst q = t) pre))"
  define gs' where "gs' = apply_inventory_event gs e"
  have ch: "snd res = snd (apply_inventory_loop m (items e) (inventory p) [])"
    unfolding res_def m_def by (rule apply_inventory_changes)
  have dist: "distinct (map fst (snd res))"
    unfolding ch by (rule loop_keys_distinct) simp
  have look: "map_of (snd res) t = Some (m * a, prev, prev + m * a)"
    unfolding ch prev_def get_item_count_def by (rule loop_changes_last [OF assms])
  obtain cs1 cs2 where split: "snd res = cs1 @ (t, m * a, prev, prev + m * a) # cs2"
    and n1: "t \<notin> fst ` set cs1" and n2: "t \<notin> fst ` set cs2"
    using map_of_split_distinct [OF dist look] by blast
  have stats: "item_stats gs' = foldl (forward_change (timestamp e)) (item_stats gs) (snd res)"
    unfolding gs'_def res_def p_def by (rule apply_inventory_event_stats)
  have 1: "get_item_count (fst res) t
              = get_item_count p t + m * sum_list (map snd (filter (\<lambda>q. fst q = t) (items e)))"
    unfolding res_def m_def by (rule apply_inventory_count)
  have 2: "players gs' (player_id e) = Some (fst res)"
    unfolding gs'_def res_def p_def by (rule apply_inventory_event_player)
  have 3: "filter (\<lambda>c. fst c = t) (snd res) = [(t, m * a, prev, prev + m * a)]"
    unfolding split by (rule filter_key_once [OF n1 n2])
  have 4: "dict_get (mentions (item_stats gs')) t 0 = dict_get (mentions (item_stats gs)) t 0 + 1"
    unfolding stats by (rule foldl_forward_once(2) [OF split n1 n2])
  have 5: "dict_get (totals (item_stats gs')) t 0 = dict_get (totals (item_stats gs)) t 0 + m * a"
    unfolding stats by (rule foldl_forward_once(1) [OF split n1 n2])
  have 6: "dict_get (owner_counts (item_stats gs')) t 0
              = dict_get (owner_counts (update_owner_count (item_stats gs) t prev (prev + m * a))) t 0"
    unfolding stats by (rule foldl_forward_once(3) [OF split n1 n2])
  show ?thesis
    unfolding Let_def
    using 1 2 3 4 5 6
    unfolding m_def p_def res_def prev_def gs'_def by blast
qed

text \<open>The event of the line \<^verbatim>\<open>[1000] ITEM_ADD | 7, (5, 3, 5, 4)\<close>: item 5 twice.\<close>

definition ev_dup :: InventoryEvent where
  "ev_dup = \<lparr>timestamp = 1000, player_id = 7, action = ''ITEM_ADD'', items = [(5, 3), (5, 4)],
             line_no = Some 1, raw_line = text_of ''[1000] ITEM_ADD | 7, (5, 3, 5, 4)''\<rparr>"


theorem repeated_item_last_pair_wins_witness:
  "items ev_dup = [(5, 3)] @ (5, 4) # [] \<and> (5::int) \<notin> fst ` set ([] :: (int \<times> int) list)
   \<and> get_item_count (fst (apply_inventory
          (fst (registry_get Map.empty 7)) ''ITEM_ADD'' [(5, 3), (5, 4)] 1000)) 5 = 7
   \<and> filter (\<lambda>c. fst c = 5) (snd (apply_inventory
          (fst (registry_get Map.empty 7)) ''ITEM_ADD'' [(5, 3), (5, 4)] 1000)) = [(5, 4, 3, 7)]
   \<and> dict_get (mentions (item_stats (apply_inventory_event (GameState_init Map.empty None) ev_dup))) 5 0 = 1
   \<and> dict_get (totals (item_stats (apply_inventory_event (GameState_init Map.empty None) ev_dup))) 5 0 = 4
   \<and> dict_get (owner_counts (item_stats (apply_inventory_event (GameState_init Map.empty None) ev_dup))) 5 0 = 0"
proof -
  have i: "items ev_dup = [(5, 3)] @ (5, 4) # []" by (simp add: ev_dup_def)
  have n: "(5::int) \<notin> fst ` set ([] :: (int \<times> int) list)" by simp
  have g: "get_item_count (fst (registry_get Map.empty 7)) 5 = 0"
    by (simp add: registry_get_def Player_init_def get_item_count_def dict_get_def Let_def)
  have o: "dict_get (owner_counts (update_owner_count ItemStatistics_init 5 3 7)) 5 0 = 0"
    by (simp add: update_owner_count_def ItemStatistics_init_def dict_get_def)
  show ?thesis
    using repeated_item_last_pair_wins [OF i n, of "GameState_init Map.empty None"] i n g o
    by (simp add: Let_def ev_dup_def GameState_init_def ItemStatistics_init_def dict_get_def)
qed

text \<open>
  The net quantity of an item type in the words of the specification: over all events and over
  every pair of that item type, \<open>+amount\<close> for \<^verbatim>\<open>ITEM_ADD\<close> and \<open>-amount\<close> for
  \<^verbatim>\<open>ITEM_REMOVE\<close>.
\<close>

definition signed_amount :: "string \<Rightarrow> int \<Rightarrow> int" where
  "signed_amount act amt = (if act = ''ITEM_ADD'' then amt else - amt)"

definition net_quantity :: "InventoryEvent list \<Rightarrow> int \<Rightarrow> int" where
  "net_quantity es t =
     sum_list (map (\<lambda>e. sum_list (map (\<lambda>q. signed_amount (action e) (snd q))
                                   (filter (\<lambda>q. fst q = t) (items e)))) es)"

text \<open>
  C2. The totals are meant to be the net quantity over every pair of every applied event. On the
  single event \<open>ev_dup\<close>, which lists item 5 in two pairs, the code records a total of 4 for item
  5, while the net quantity of the two pairs is 7, which is also what the player's own
  inventory holds afterwards.
\<close>

theorem totals_miss_repeated_pair:
  "dict_get (totals (item_stats (apply_events (GameState_init Map.empty None) [Inv ev_dup]))) 5 0 = 4
   \<and> net_quantity [ev_dup] 5 = 7
   \<and> get_item_count (fst (registry_get
        (players (apply_events (GameState_init Map.empty None) [Inv ev_dup])) 7)) 5 = 7"
  by (simp add: ev_dup_def apply_events_def apply_inventory_event_def GameState_init_def
      registry_get_def Let_def apply_inventory_def Player_init_def update_activity_def dict_get_def
      ItemStatistics_init_def forward_change_def register_appearance_def record_mention_def
      record_delta_def update_owner_count_def net_quantity_def signed_amount_def get_item_count_def)


lemma apply_inventory_single:
  "apply_inventory p act [(t, a)] ts =
     ((update_activity p ts)\<lparr>inventory := (inventory p)(t \<mapsto>
          get_item_count p t + (if act = ''ITEM_ADD'' then 1 else - 1) * a)\<rparr>,
      [(t, (if act = ''ITEM_ADD'' then 1 else - 1) * a, get_item_count p t,
           get_item_count p t + (if act = ''ITEM_ADD'' then 1 else - 1) * a)])"
  by (simp add: apply_inventory_def Let_def update_activity_def get_item_count_def)

lemma registry_get_present: "reg pid = Some p \<Longrightarrow> registry_get reg pid = (p, reg)"
  by (simp add: registry_get_def)

text \<open>
  C8. For any player, item type \<open>t\<close> and amount \<open>a\<close>: \<^verbatim>\<open>ITEM_ADD\<close> of the pair \<open>(t, a)\<close>
  followed by \<^verbatim>\<open>ITEM_REMOVE\<close> of \<open>(t, a)\<close> on the same player leaves the stored count of \<open>t\<close>
  as it was; the deltas recorded are \<open>a\<close> and \<open>- a\<close>, with sum 0; and through
  \<^verbatim>\<open>GameState.apply_inventory_event\<close> the total of \<open>t\<close> is as before too.
\<close>

theorem add_then_remove_restores:
  "let add = \<lparr>timestamp = ts1, player_id = pid, action = ''ITEM_ADD'', items = [(t, a)],
               line_no = l1, raw_line = r1\<rparr>;
       rem = \<lparr>timestamp = ts2, player_id = pid, action = ''ITEM_REMOVE'', items = [(t, a)],
               line_no = l2, raw_line = r2\<rparr>;
       res1 = apply_inventory p ''ITEM_ADD'' [(t, a)] ts1;
       res2 = apply_inventory (fst res1) ''ITEM_REMOVE'' [(t, a)] ts2;
       gs2 = apply_inventory_event (apply_inventory_event gs add) rem
   in get_item_count (fst res2) t = get_item_count p t
    \<and> map (fst \<circ> snd) (snd res1) = [a] \<and> map (fst \<circ> snd) (snd res2) = [- a]
    \<and> sum_list (map (fst \<circ> snd) (snd res1 @ snd res2)) = 0
    \<and> get_item_count (fst (registry_get (players gs2) pid)) t
         = get_item_count (fst (registry_get (players gs) pid)) t
    \<and> dict_get (totals (item_stats gs2)) t 0 = dict_get (totals (item_stats gs)) t 0"
proof -
  define add where "add = \<lparr>timestamp = ts1, player_id = pid, action = ''ITEM_ADD'',
      items = [(t, a)], line_no = l1, raw_line = r1\<rparr>"
  define rem where "rem = \<lparr>timestamp = ts2, player_id = pid, action = ''ITEM_REMOVE'',
      items = [(t, a)], line_no = l2, raw_line = r2\<rparr>"
  define q0 where "q0 = fst (registry_get (players gs) pid)"
  define gs1 where "gs1 = apply_inventory_event gs add"
  define gs2 where "gs2 = apply_inventory_event gs1 rem"
  define q1 where "q1 = fst (apply_inventory q0 ''ITEM_ADD'' [(t, a)] ts1)"
  define q2 where "q2 = fst (apply_inventory q1 ''ITEM_REMOVE'' [(t, a)] ts2)"
  have flds: "player_id add = pid" "action add = ''ITEM_ADD''" "items add = [(t, a)]"
    "timestamp add = ts1" "player_id rem = pid" "action rem = ''ITEM_REMOVE''"
    "items rem = [(t, a)]" "timestamp rem = ts2"
    by (simp_all add: add_def rem_def)
  have count2: "get_item_count (fst (apply_inventory (fst (apply_inventory x ''ITEM_ADD'' [(t, a)] ts1))
                    ''ITEM_REMOVE'' [(t, a)] ts2)) t = get_item_count x t" for x
    by (simp add: apply_inventory_count)
  have pl1: "players gs1 pid = Some q1"
    using apply_inventory_event_player [of gs add] by (simp add: flds gs1_def q1_def q0_def)
  then have get1: "registry_get (players gs1) pid = (q1, players gs1)"
    by (rule registry_get_present)
  have pl2: "players gs2 pid = Some q2"
    using apply_inventory_event_player [of gs1 rem] by (simp add: flds gs2_def q2_def get1)
  then have get2: "registry_get (players gs2) pid = (q2, players gs2)"
    by (rule registry_get_present)
  have st1: "item_stats gs1 = forward_change ts1 (item_stats gs)
               (t, a, get_item_count q0 t, get_item_count q0 t + a)"
    unfolding gs1_def apply_inventory_event_stats flds q0_def [symmetric]
    by (simp add: apply_inventory_single)
  have st2: "item_stats gs2 = forward_change ts2 (item_stats gs1)
               (t, - a, get_item_count q1 t, get_item_count q1 t - a)"
    unfolding gs2_def apply_inventory_event_stats flds get1 fst_conv
    by (simp add: apply_inventory_single)
  have A: "get_item_count (fst (apply_inventory (fst (apply_inventory p ''ITEM_ADD'' [(t, a)] ts1))
                    ''ITEM_REMOVE'' [(t, a)] ts2)) t = get_item_count p t"
    by (rule count2)
  have B: "map (fst \<circ> snd) (snd (apply_inventory p ''ITEM_ADD'' [(t, a)] ts1)) = [a]"
    by (simp add: apply_inventory_single)
  have C: "map (fst \<circ> snd) (snd (apply_inventory (fst (apply_inventory p ''ITEM_ADD'' [(t, a)] ts1))
                    ''ITEM_REMOVE'' [(t, a)] ts2)) = [- a]"
    by (simp add: apply_inventory_single)
  have D: "get_item_count (fst (registry_get (players gs2) pid)) t = get_item_count q0 t"
    unfolding get2 fst_conv q2_def q1_def by (rule count2)
  have E: "dict_get (totals (item_stats gs2)) t 0 = dict_get (totals (item_stats gs)) t 0"
    unfolding st2 st1 by (simp add: forward_totals)
  show ?thesis
    unfolding Let_def add_def [symmetric] rem_def [symmetric] gs1_def [symmetric]
      gs2_def [symmetric]
    using A B C D E by (simp add: q0_def)
qed

subsection \<open>First appearances\<close>


text \<open>
  A sequence of calls \<^verbatim>\<open>register_appearance(item_type_id, timestamp)\<close>, each call a pair
  \<open>(item_type_id, timestamp)\<close>.
\<close>

definition register_calls :: "ItemStatistics \<Rightarrow> (int \<times> int) list \<Rightarrow> ItemStatistics" where
  "register_calls st calls = foldl (\<lambda>s c. register_appearance s (fst c) (snd c)) st calls"

text \<open>
  What the specification says of \<^verbatim>\<open>first_seen\<close>: of a sequence of calls, those whose item type
  no earlier call names, in the order of the calls, each as \<open>(timestamp, item_type_id)\<close>.
\<close>

definition first_observations :: "(int \<times> int) list \<Rightarrow> (int \<times> int) list" where
  "first_observations calls =
     map (\<lambda>k. (snd (calls ! k), fst (calls ! k)))
       (filter (\<lambda>k. fst (calls ! k) \<notin> fst ` set (take k calls)) [0..<length calls])"

text \<open>
  The item types a run of events observes, in processing order: the pairs of every inventory
  event as the event lists them, each with the event's timestamp.
\<close>

definition appearance_calls :: "event list \<Rightarrow> (int \<times> int) list" where
  "appearance_calls es =
     concat (map (\<lambda>e. case e of
                         Inv ie \<Rightarrow> map (\<lambda>q. (fst q, timestamp ie)) (items ie)
                       | Mon me \<Rightarrow> []) es)"

text \<open>The two fields \<^verbatim>\<open>register_appearance\<close> reads and writes.\<close>

definition seen :: "ItemStatistics \<Rightarrow> (int \<rightharpoonup> int) \<times> (int \<times> int) list" where
  "seen st = (first_seen_ts st, first_seen_order st)"

lemma register_calls_Nil: "register_calls st [] = st"
  by (simp add: register_calls_def)

lemma register_calls_Cons:
  "register_calls st (c # cs) = register_calls (register_appearance st (fst c) (snd c)) cs"
  by (simp add: register_calls_def)

lemma register_calls_append:
  "register_calls st (xs @ ys) = register_calls (register_calls st xs) ys"
  by (simp add: register_calls_def)

lemma register_calls_snoc:
  "register_calls st (cs @ [c]) = register_appearance (register_calls st cs) (fst c) (snd c)"
  by (simp add: register_calls_def)

lemma register_calls_dom:
  "dom (first_seen_ts (register_calls st cs)) = dom (first_seen_ts st) \<union> fst ` set cs"
proof (induction cs arbitrary: st)
  case Nil
  then show ?case by (simp add: register_calls_Nil)
next
  case (Cons c cs)
  have "dom (first_seen_ts (register_appearance st (fst c) (snd c)))
          = insert (fst c) (dom (first_seen_ts st))"
    by (auto simp: register_appearance_def)
  then show ?case
    by (simp add: register_calls_Cons Cons.IH)
qed

lemma first_observations_snoc:
  "first_observations (cs @ [c]) =
     first_observations cs @ (if fst c \<in> fst ` set cs then [] else [(snd c, fst c)])"
proof -
  have f: "filter (\<lambda>k. fst ((cs @ [c]) ! k) \<notin> fst ` set (take k (cs @ [c]))) [0..<length cs]
         = filter (\<lambda>k. fst (cs ! k) \<notin> fst ` set (take k cs)) [0..<length cs]"
    by (rule filter_cong) (simp_all add: nth_append)
  have m: "map (\<lambda>k. (snd ((cs @ [c]) ! k), fst ((cs @ [c]) ! k)))
             (filter (\<lambda>k. fst (cs ! k) \<notin> fst ` set (take k cs)) [0..<length cs])
         = map (\<lambda>k. (snd (cs ! k), fst (cs ! k)))
             (filter (\<lambda>k. fst (cs ! k) \<notin> fst ` set (take k cs)) [0..<length cs])"
    by (rule map_cong) (simp_all add: nth_append)
  have t: "take (length cs) (cs @ [c]) = cs" by simp
  show ?thesis
    unfolding first_observations_def
    by (simp add: f m t del: take_append)
qed

lemma first_seen_register_calls:
  "first_seen_order (register_calls ItemStatistics_init cs) = first_observations cs"
proof (induction cs rule: rev_induct)
  case Nil
  then show ?case
    by (simp add: register_calls_Nil first_observations_def ItemStatistics_init_def)
next
  case (snoc c cs)
  have d: "dom (first_seen_ts (register_calls ItemStatistics_init cs)) = fst ` set cs"
    by (simp add: register_calls_dom ItemStatistics_init_def)
  show ?case
    unfolding register_calls_snoc first_observations_snoc
    by (simp add: register_appearance_def d snoc.IH)
qed

definition seen_ok :: "ItemStatistics \<Rightarrow> bool" where
  "seen_ok st = (distinct (map snd (first_seen_order st))
                 \<and> snd ` set (first_seen_order st) = dom (first_seen_ts st))"

lemma seen_ok_register: "seen_ok st \<Longrightarrow> seen_ok (register_appearance st i ts)"
  by (auto simp: seen_ok_def register_appearance_def)

lemma seen_ok_register_calls: "seen_ok st \<Longrightarrow> seen_ok (register_calls st cs)"
  by (induction cs arbitrary: st) (simp_all add: register_calls_Nil register_calls_Cons seen_ok_register)

lemma seen_ok_init: "seen_ok ItemStatistics_init"
  by (simp add: seen_ok_def ItemStatistics_init_def)

lemma seen_register_cong:
  "seen st = seen st' \<Longrightarrow> seen (register_appearance st i ts) = seen (register_appearance st' i ts)"
  by (simp add: seen_def register_appearance_def)

lemma seen_register_calls_cong:
  "seen st = seen st' \<Longrightarrow> seen (register_calls st cs) = seen (register_calls st' cs)"
proof (induction cs arbitrary: st st')
  case Nil
  then show ?case by (simp add: register_calls_Nil)
next
  case (Cons c cs)
  show ?case
    unfolding register_calls_Cons
    by (rule Cons.IH) (rule seen_register_cong [OF Cons.prems])
qed

lemma seen_forward_change:
  "seen (forward_change ts st c) = seen (register_appearance st (fst c) ts)"
  by (cases c) (simp add: seen_def forward_change_def update_owner_count_def record_delta_def
      record_mention_def Let_def)

lemma seen_foldl_forward:
  "seen (foldl (forward_change ts) st cs) = seen (register_calls st (map (\<lambda>c. (fst c, ts)) cs))"
proof (induction cs arbitrary: st)
  case Nil
  then show ?case by (simp add: register_calls_Nil)
next
  case (Cons c cs)
  have "seen (foldl (forward_change ts) st (c # cs))
          = seen (register_calls (forward_change ts st c) (map (\<lambda>c. (fst c, ts)) cs))"
    by (simp add: Cons.IH)
  also have "\<dots> = seen (register_calls (register_appearance st (fst c) ts)
                        (map (\<lambda>c. (fst c, ts)) cs))"
    by (rule seen_register_calls_cong) (rule seen_forward_change)
  finally show ?case by (simp add: register_calls_Cons)
qed

lemma register_known:
  "k \<in> fst ` set cs \<Longrightarrow> register_appearance (register_calls st cs) k ts = register_calls st cs"
  by (simp add: register_appearance_def register_calls_dom)

lemma loop_keys_register:
  "register_calls st (map (\<lambda>c. (fst c, ts)) (snd (apply_inventory_loop m its stock ch)))
     = register_calls st (map (\<lambda>c. (fst c, ts)) ch @ map (\<lambda>q. (fst q, ts)) its)"
proof (induction its arbitrary: stock ch)
  case Nil
  then show ?case by simp
next
  case (Cons x xs)
  obtain i a where x: "x = (i, a)" by (cases x) auto
  define v where "v = (m * a, dict_get stock i 0, dict_get stock i 0 + m * a)"
  have step: "register_calls st (map (\<lambda>c. (fst c, ts)) (AList.update i v ch))
                = register_calls st (map (\<lambda>c. (fst c, ts)) ch @ [(i, ts)])"
  proof (cases "i \<in> fst ` set ch")
    case True
    then have k: "map fst (AList.update i v ch) = map fst ch"
      by (simp add: update_keys)
    have "map (\<lambda>c. (fst c, ts)) (AList.update i v ch) = map (\<lambda>k. (k, ts)) (map fst (AList.update i v ch))"
      by (simp add: comp_def)
    also have "\<dots> = map (\<lambda>c. (fst c, ts)) ch" unfolding k by (simp add: comp_def)
    finally have e: "map (\<lambda>c. (fst c, ts)) (AList.update i v ch) = map (\<lambda>c. (fst c, ts)) ch" .
    have "i \<in> fst ` set (map (\<lambda>c. (fst c, ts)) ch)" using True by force
    then show ?thesis
      unfolding e register_calls_snoc by (simp add: register_known)
  next
    case False
    then have k: "map fst (AList.update i v ch) = map fst ch @ [i]"
      by (simp add: update_keys)
    have "map (\<lambda>c. (fst c, ts)) (AList.update i v ch) = map (\<lambda>k. (k, ts)) (map fst (AList.update i v ch))"
      by (simp add: comp_def)
    also have "\<dots> = map (\<lambda>c. (fst c, ts)) ch @ [(i, ts)]" unfolding k by (simp add: comp_def)
    finally show ?thesis by simp
  qed
  have "register_calls st (map (\<lambda>c. (fst c, ts)) (snd (apply_inventory_loop m (x # xs) stock ch)))
      = register_calls st (map (\<lambda>c. (fst c, ts)) (AList.update i v ch) @ map (\<lambda>q. (fst q, ts)) xs)"
    unfolding x apply_inventory_loop.simps Let_def v_def by (rule Cons.IH)
  also have "\<dots> = register_calls st ((map (\<lambda>c. (fst c, ts)) ch @ [(i, ts)]) @ map (\<lambda>q. (fst q, ts)) xs)"
    unfolding register_calls_append [of st "map (\<lambda>c. (fst c, ts)) (AList.update i v ch)"]
      register_calls_append [of st "map (\<lambda>c. (fst c, ts)) ch @ [(i, ts)]"] step ..
  finally show ?case by (simp add: x)
qed

lemma seen_apply_event:
  "seen (item_stats (apply_event gs e)) = seen (register_calls (item_stats gs) (appearance_calls [e]))"
proof (cases e)
  case (Inv ie)
  show ?thesis
    unfolding Inv apply_event.simps apply_inventory_event_stats seen_foldl_forward
      apply_inventory_changes loop_keys_register
    by (simp add: appearance_calls_def)
next
  case (Mon me)
  show ?thesis
    unfolding Mon
    by (simp add: apply_money_event_def split_beta Let_def appearance_calls_def register_calls_Nil)
qed

lemma appearance_calls_Cons:
  "appearance_calls (e # es) = appearance_calls [e] @ appearance_calls es"
  by (simp add: appearance_calls_def)

lemma seen_apply_events:
  "seen (item_stats (apply_events gs es)) = seen (register_calls (item_stats gs) (appearance_calls es))"
proof (induction es arbitrary: gs)
  case Nil
  then show ?case by (simp add: apply_events_def appearance_calls_def register_calls_Nil)
next
  case (Cons e es)
  have "seen (item_stats (apply_events gs (e # es))) =
          seen (register_calls (item_stats (apply_event gs e)) (appearance_calls es))"
    using Cons.IH [of "apply_event gs e"] by (simp add: apply_events_def)
  also have "\<dots> = seen (register_calls (register_calls (item_stats gs) (appearance_calls [e]))
                       (appearance_calls es))"
    by (rule seen_register_calls_cong) (rule seen_apply_event)
  finally show ?case
    unfolding appearance_calls_Cons [of e es] register_calls_append .
qed

text \<open>
  C7. After any sequence of \<^verbatim>\<open>register_appearance\<close> calls on fresh statistics, the first-seen
  sequence names every item type at most once and consists of exactly the calls that named an
  item type for the first time, in the order of the calls, each with the timestamp of that call.
  For the calls that \<^verbatim>\<open>GameState.apply_inventory_event\<close> makes over a run of events, this is
  the order in which the events list the item types, not the order of the timestamps.
\<close>

theorem first_seen_once_in_processing_order:
  "distinct (map snd (first_seen_order (register_calls ItemStatistics_init calls)))
   \<and> first_seen_order (register_calls ItemStatistics_init calls) = first_observations calls
   \<and> first_seen_order (item_stats (apply_events (GameState_init reg None) es))
        = first_observations (appearance_calls es)"
proof -
  have "seen_ok (register_calls ItemStatistics_init calls)"
    by (rule seen_ok_register_calls [OF seen_ok_init])
  then have 1: "distinct (map snd (first_seen_order (register_calls ItemStatistics_init calls)))"
    by (simp add: seen_ok_def)
  have "seen (item_stats (apply_events (GameState_init reg None) es))
          = seen (register_calls ItemStatistics_init (appearance_calls es))"
    unfolding seen_apply_events by (simp add: GameState_init_def)
  then have "first_seen_order (item_stats (apply_events (GameState_init reg None) es))
          = first_seen_order (register_calls ItemStatistics_init (appearance_calls es))"
    by (simp add: seen_def)
  then show ?thesis
    using 1 by (simp add: first_seen_register_calls)
qed

text \<open>A second event, earlier in time, processed after \<open>ev_dup\<close>.\<close>

definition ev_two :: InventoryEvent where
  "ev_two = \<lparr>timestamp = 900, player_id = 8, action = ''ITEM_REMOVE'', items = [(9, 1), (5, 2)],
             line_no = Some 2, raw_line = text_of ''[900] ITEM_REMOVE | 8, (9, 1, 5, 2)''\<rparr>"

theorem first_seen_once_in_processing_order_witness:
  "first_seen_order (register_calls ItemStatistics_init [(5, 1000), (9, 900), (5, 900)])
     = [(1000, 5), (900, 9)]
   \<and> first_seen_order (item_stats (apply_events (GameState_init Map.empty None)
        [Inv ev_dup, Inv ev_two])) = [(1000, 5), (900, 9)]"
  using first_seen_once_in_processing_order [of "[(5, 1000), (9, 900), (5, 900)]" Map.empty
      "[Inv ev_dup, Inv ev_two]"]
  by (simp add: first_observations_def appearance_calls_def ev_dup_def ev_two_def upt_rec)

subsection \<open>Totals without repeated item types, and the floor of the owner count\<close>

text \<open>
  Where no event lists an item type twice, the totals are the net quantity of the
  specification.
\<close>

lemma event_totals_distinct:
  assumes "distinct (map fst (items e))"
  shows "dict_get (totals (item_stats (apply_inventory_event gs e))) t 0
           = dict_get (totals (item_stats gs)) t 0 + net_quantity [e] t"
proof -
  define m :: int where "m = (if action e = ''ITEM_ADD'' then 1 else - 1)"
  define p where "p = fst (registry_get (players gs) (player_id e))"
  define ch where "ch = snd (apply_inventory p (action e) (items e) (timestamp e))"
  have ch: "ch = snd (apply_inventory_loop m (items e) (inventory p) [])"
    unfolding ch_def m_def by (rule apply_inventory_changes)
  have dist: "distinct (map fst ch)"
    unfolding ch by (rule loop_keys_distinct) simp
  have stats: "item_stats (apply_inventory_event gs e) =
      foldl (forward_change (timestamp e)) (item_stats gs) ch"
    unfolding ch_def p_def by (rule apply_inventory_event_stats)
  have sg: "signed_amount (action e) x = m * x" for x
    by (simp add: signed_amount_def m_def)
  show ?thesis
  proof (cases "t \<in> fst ` set (items e)")
    case False
    then have "filter (\<lambda>q. fst q = t) (items e) = []"
      by (auto simp: filter_empty_conv)
    then have net: "net_quantity [e] t = 0" by (simp add: net_quantity_def)
    have "map_of ch t = None"
      unfolding ch using loop_changes_other [OF False, of m "inventory p" "[]"] by simp
    then have "t \<notin> fst ` set ch" by (simp add: map_of_eq_None_iff)
    from foldl_forward_other [OF this] show ?thesis
      unfolding stats net by simp
  next
    case True
    then obtain a where "(t, a) \<in> set (items e)" by auto
    then obtain pre post where sp: "items e = pre @ (t, a) # post"
      by (meson split_list)
    with assms have n: "t \<notin> fst ` set pre" "t \<notin> fst ` set post" by auto
    have "filter (\<lambda>q. fst q = t) (items e) = [(t, a)]"
      unfolding sp by (rule filter_key_once [OF n])
    then have net: "net_quantity [e] t = m * a"
      by (simp add: net_quantity_def sg)
    obtain pv where look: "map_of ch t = Some (m * a, pv, pv + m * a)"
      unfolding ch using loop_changes_last [OF sp n(2)] by blast
    from map_of_split_distinct [OF dist look] obtain cs1 cs2 where
      "ch = cs1 @ (t, m * a, pv, pv + m * a) # cs2" "t \<notin> fst ` set cs1" "t \<notin> fst ` set cs2"
      by blast
    from foldl_forward_once(1) [OF this] show ?thesis
      unfolding stats net by simp
  qed
qed

lemma net_quantity_Cons: "net_quantity (e # es) t = net_quantity [e] t + net_quantity es t"
  by (simp add: net_quantity_def)

lemma totals_net_distinct:
  "\<forall>e \<in> set es. distinct (map fst (items e)) \<Longrightarrow>
     dict_get (totals (item_stats (apply_events gs (map Inv es)))) t 0
       = dict_get (totals (item_stats gs)) t 0 + net_quantity es t"
proof (induction es arbitrary: gs)
  case Nil
  then show ?case by (simp add: apply_events_def net_quantity_def)
next
  case (Cons e es)
  have "dict_get (totals (item_stats (apply_events gs (map Inv (e # es))))) t 0
      = dict_get (totals (item_stats (apply_events (apply_inventory_event gs e) (map Inv es)))) t 0"
    by (simp add: apply_events_def)
  also have "\<dots> = dict_get (totals (item_stats (apply_inventory_event gs e))) t 0 + net_quantity es t"
    by (rule Cons.IH) (use Cons.prems in simp)
  also have "\<dots> = dict_get (totals (item_stats gs)) t 0 + net_quantity [e] t + net_quantity es t"
    by (subst event_totals_distinct) (use Cons.prems in simp_all)
  finally show ?case
    by (simp add: net_quantity_Cons [of e es])
qed

text \<open>
  A removal of the seven units the player holds after \<open>ev_dup\<close>. The owner count of item 5 is
  still 0 then, so the decrement meets the floor.
\<close>

definition ev_remove7 :: InventoryEvent where
  "ev_remove7 = \<lparr>timestamp = 1001, player_id = 7, action = ''ITEM_REMOVE'', items = [(5, 7)],
                 line_no = Some 2, raw_line = text_of ''[1001] ITEM_REMOVE | 7, (5, 7)''\<rparr>"

theorem owner_counts_never_negative_witness:
  "owner_counts (item_stats (apply_events (GameState_init Map.empty None)
       [Inv ev_dup, Inv ev_remove7])) 5 = Some 0
   \<and> 0 \<le> dict_get (owner_counts (item_stats (apply_events (GameState_init Map.empty None)
       [Inv ev_dup, Inv ev_remove7]))) 5 0"
proof -
  have "owner_counts (item_stats (apply_events (GameState_init Map.empty None)
       [Inv ev_dup, Inv ev_remove7])) 5 = Some 0"
    by (simp add: ev_dup_def ev_remove7_def apply_events_def apply_inventory_event_def
      GameState_init_def registry_get_def Let_def apply_inventory_def Player_init_def
      update_activity_def dict_get_def ItemStatistics_init_def forward_change_def
      register_appearance_def record_mention_def record_delta_def update_owner_count_def)
  then show ?thesis
    using owner_counts_never_negative [of Map.empty "[Inv ev_dup, Inv ev_remove7]" 5]
    by simp
qed

section \<open>Merging the two logs (combiner.py)\<close>

text \<open>
  What the modelled Python can raise. \<open>TimestampOutOfRange\<close> stands for the error of
  \<^verbatim>\<open>datetime.utcfromtimestamp\<close> on a timestamp outside the years 1 to 9999 (a
  \<^verbatim>\<open>ValueError\<close>, or an \<^verbatim>\<open>OverflowError\<close> or \<^verbatim>\<open>OSError\<close> for magnitudes beyond the platform's
  time type); \<^verbatim>\<open>combiner.py\<close> catches none of them.
\<close>

datatype py_exc = ValueError | IndexError | AttributeError | TimestampOutOfRange

text \<open>The conversion \<^verbatim>\<open>%d\<close> of an integer, and \<^verbatim>\<open>strftime\<close>'s two-digit fields.\<close>

fun str_of_nat :: "nat \<Rightarrow> string" where
  "str_of_nat n =
     (if n < 10 then [char_of (48 + n)] else str_of_nat (n div 10) @ [char_of (48 + n mod 10)])"

definition fmt_d :: "int \<Rightarrow> string" where
  "fmt_d i = (if i < 0 then CHR ''-'' # str_of_nat (nat (- i)) else str_of_nat (nat i))"

definition fmt_02d :: "int \<Rightarrow> string" where
  "fmt_02d i = (if 0 \<le> i \<and> i < 10 then CHR ''0'' # fmt_d i else fmt_d i)"

text \<open>
  The proleptic Gregorian date (year, month, day) of a day number counted from 1970-01-01,
  as \<^verbatim>\<open>datetime\<close> computes it.
\<close>

definition civil_from_days :: "int \<Rightarrow> int \<times> int \<times> int" where
  "civil_from_days days =
     (let z = days + 719468;
          era = z div 146097;
          doe = z - era * 146097;
          yoe = (doe - doe div 1460 + doe div 36524 - doe div 146096) div 365;
          y = yoe + era * 400;
          doy = doe - (365 * yoe + yoe div 4 - yoe div 100);
          mp = (5 * doy + 2) div 153;
          d = doy - (153 * mp + 2) div 5 + 1;
          m = (if mp < 10 then mp + 3 else mp - 9)
      in (if m \<le> 2 then y + 1 else y, m, d))"

text \<open>
  \<^verbatim>\<open>_format_timestamp\<close>: \<^verbatim>\<open>datetime.utcfromtimestamp(timestamp).strftime("%y-%m-%d %H:%M:%S")\<close>.
  The constructor of \<^verbatim>\<open>datetime\<close> refuses a year outside 1 to 9999, that is a timestamp before
  0001-01-01 00:00:00 or after 9999-12-31 23:59:59.
\<close>

definition format_timestamp :: "int \<Rightarrow> py_exc + string" where
  "format_timestamp ts =
     (if ts < - 62135596800 \<or> 253402300799 < ts then Inl TimestampOutOfRange
      else
        (let (year, month, day) = civil_from_days (ts div 86400);
             secs = ts mod 86400
         in Inr (fmt_02d (year mod 100) @ ''-'' @ fmt_02d month @ ''-'' @ fmt_02d day @ '' ''
                 @ fmt_02d (secs div 3600) @ '':'' @ fmt_02d (secs mod 3600 div 60) @ '':''
                 @ fmt_02d (secs mod 60))))"

text \<open>\<^verbatim>\<open>" ".join(items)\<close>.\<close>

definition join_sp :: "string list \<Rightarrow> string" where
  "join_sp xs = (case xs of [] \<Rightarrow> [] | y # ys \<Rightarrow> y @ concat (map (\<lambda>z. '' '' @ z) ys))"

text \<open>
  The two formatters take what the heap entry carries. Given an event of the other kind, each
  would fail on the first attribute the event lacks, after the timestamp has been formatted.
\<close>

fun format_inventory_event :: "event \<Rightarrow> py_exc + string" where
  "format_inventory_event (Inv e) =
     (case format_timestamp (timestamp e) of
        Inl x \<Rightarrow> Inl x
      | Inr ts \<Rightarrow>
          Inr (''['' @ ts @ ''] '' @ fmt_d (player_id e) @ '' | '' @ action e @ '' ''
               @ join_sp (map (\<lambda>(item_type_id, amt).
                                ''('' @ fmt_d item_type_id @ '', '' @ fmt_d amt @ '')'') (items e))))"
| "format_inventory_event (Mon e) =
     (case format_timestamp (m_timestamp e) of Inl x \<Rightarrow> Inl x | Inr ts \<Rightarrow> Inl AttributeError)"

fun format_money_event :: "event \<Rightarrow> py_exc + string" where
  "format_money_event (Mon e) =
     (case format_timestamp (m_timestamp e) of
        Inl x \<Rightarrow> Inl x
      | Inr ts \<Rightarrow>
          Inr (''['' @ ts @ ''] '' @ fmt_d (m_player_id e) @ '' | '' @ m_action e @ '' | ''
               @ fmt_d (amount e) @ '' | '' @ reason e))"
| "format_money_event (Inv e) =
     (case format_timestamp (timestamp e) of Inl x \<Rightarrow> Inl x | Inr ts \<Rightarrow> Inl AttributeError)"

text \<open>
  A heap entry is the tuple \<open>(timestamp, priority, order, source, event)\<close>. \<^verbatim>\<open>heapq\<close> compares
  entries as tuples; \<open>entry_lt\<close> is that comparison on the first three components. Two entries
  of one heap never agree on all three (lemma \<open>heap_ok_keys\<close> below), so the comparison never
  reaches the source or the event.
\<close>

type_synonym entry = "int \<times> int \<times> int \<times> string \<times> event"

definition entry_lt :: "entry \<Rightarrow> entry \<Rightarrow> bool" where
  "entry_lt a b =
     (case a of (t1, p1, o1, src1, ev1) \<Rightarrow>
      case b of (t2, p2, o2, src2, ev2) \<Rightarrow>
        t1 < t2 \<or> (t1 = t2 \<and> (p1 < p2 \<or> (p1 = p2 \<and> o1 < o2))))"

text \<open>
  \<^verbatim>\<open>heapq\<close> by its contract: \<^verbatim>\<open>heappush\<close> adds an entry, \<^verbatim>\<open>heappop\<close> removes and returns the
  least entry and raises \<^verbatim>\<open>IndexError\<close> on an empty heap. The list holds the entries in the
  order they were pushed.
\<close>

definition heappush :: "entry list \<Rightarrow> entry \<Rightarrow> entry list" where
  "heappush h x = h @ [x]"

fun heap_min :: "entry \<Rightarrow> entry list \<Rightarrow> entry" where
  "heap_min m [] = m"
| "heap_min m (x # xs) = heap_min (if entry_lt x m then x else m) xs"

definition heappop :: "entry list \<Rightarrow> py_exc + (entry \<times> entry list)" where
  "heappop h =
     (case h of
        [] \<Rightarrow> Inl IndexError
      | x # xs \<Rightarrow> (let m = heap_min x xs in Inr (m, remove1 m h)))"

text \<open>
  The variables of \<^verbatim>\<open>merge_logs_to_file\<close>. The two iterators are the events they have yet to
  yield; \<open>handle\<close> is the lines written to the output file. \<open>emitted\<close> is not a variable of the
  program: it records, for every line written, the source and the event the line was formatted
  from, so that the order of the output can be stated on events.
\<close>

record merge_state =
  heap :: "entry list"
  inventory_iter :: "InventoryEvent list"
  money_iter :: "MoneyEvent list"
  inventory_order :: int
  money_order :: int
  inventory_count :: int
  money_count :: int
  handle :: "string list"
  emitted :: "(string \<times> event) list"

text \<open>\<^verbatim>\<open>next(inventory_iter)\<close> and the push of the event it yields, if any; the same for money.\<close>

definition seed_inventory :: "merge_state \<Rightarrow> merge_state" where
  "seed_inventory s =
     (case inventory_iter s of
        [] \<Rightarrow> s
      | next_event # rest \<Rightarrow>
          s\<lparr>inventory_iter := rest,
            heap := heappush (heap s)
                      (timestamp next_event, 0, inventory_order s, ''inventory'', Inv next_event),
            inventory_order := inventory_order s + 1\<rparr>)"

definition seed_money :: "merge_state \<Rightarrow> merge_state" where
  "seed_money s =
     (case money_iter s of
        [] \<Rightarrow> s
      | next_event # rest \<Rightarrow>
          s\<lparr>money_iter := rest,
            heap := heappush (heap s)
                      (m_timestamp next_event, 1, money_order s, ''money'', Mon next_event),
            money_order := money_order s + 1\<rparr>)"

definition merge_init :: "InventoryEvent list \<Rightarrow> MoneyEvent list \<Rightarrow> merge_state" where
  "merge_init inventory_events money_events =
     seed_money (seed_inventory
       \<lparr>heap = [], inventory_iter = inventory_events, money_iter = money_events,
        inventory_order = 0, money_order = 0, inventory_count = 0, money_count = 0,
        handle = [], emitted = []\<rparr>)"

text \<open>
  The parts of the body of \<^verbatim>\<open>while heap\<close>: the choice of the formatter by the source, the
  count and the write of the line, and the refill of the heap from the iterator of the source
  just written.
\<close>

definition format_line :: "string \<Rightarrow> event \<Rightarrow> py_exc + string" where
  "format_line source ev =
     (if source = ''inventory'' then format_inventory_event ev else format_money_event ev)"

definition write_line :: "merge_state \<Rightarrow> string \<Rightarrow> event \<Rightarrow> string \<Rightarrow> merge_state" where
  "write_line s source ev line =
     (let s1 = (if source = ''inventory''
                then s\<lparr>inventory_count := inventory_count s + 1\<rparr>
                else s\<lparr>money_count := money_count s + 1\<rparr>)
      in s1\<lparr>handle := handle s1 @ [line @ [CHR 0x0A]],
            emitted := emitted s1 @ [(source, ev)]\<rparr>)"

definition refill :: "string \<Rightarrow> merge_state \<Rightarrow> merge_state" where
  "refill source s = (if source = ''inventory'' then seed_inventory s else seed_money s)"

text \<open>
  One pass through the body: the state after it and the exception that ended it, if any. A
  formatter that raises leaves the heap popped and nothing written.
\<close>

definition merge_step :: "merge_state \<Rightarrow> merge_state \<times> py_exc option" where
  "merge_step s =
     (case heappop (heap s) of
        Inl x \<Rightarrow> (s, Some x)
      | Inr ((ts, prio, ord, source, ev), h) \<Rightarrow>
          (case format_line source ev of
             Inl x \<Rightarrow> (s\<lparr>heap := h\<rparr>, Some x)
           | Inr line \<Rightarrow> (refill source (write_line (s\<lparr>heap := h\<rparr>) source ev line), None)))"

text \<open>The events not yet written: those in the heap and those the iterators still hold.\<close>

definition pending :: "merge_state \<Rightarrow> nat" where
  "pending s = length (heap s) + length (inventory_iter s) + length (money_iter s)"

lemma heap_min_mem: "heap_min m xs \<in> set (m # xs)"
proof (induction xs arbitrary: m)
  case Nil
  then show ?case by simp
next
  case (Cons x xs)
  show ?case
    using Cons.IH [of "if entry_lt x m then x else m"] by (auto split: if_splits)
qed

lemma heappop_Cons:
  "heappop (x # xs) = Inr (heap_min x xs, remove1 (heap_min x xs) (x # xs))"
  by (simp add: heappop_def Let_def del: remove1.simps)

lemma heappop_length:
  "heappop h = Inr (m, h') \<Longrightarrow> Suc (length h') = length h"
proof -
  assume a: "heappop h = Inr (m, h')"
  then obtain x xs where h: "h = x # xs" by (cases h) (simp_all add: heappop_def)
  from a have m: "m = heap_min x xs" and h': "h' = remove1 m h"
    unfolding h heappop_Cons by auto
  have mem: "m \<in> set h" unfolding m h by (rule heap_min_mem)
  then have "0 < length h" by (cases h) simp_all
  then show ?thesis
    unfolding h' using mem by (simp add: length_remove1 del: remove1.simps)
qed

lemma seed_inventory_pending: "pending (seed_inventory s) = pending s"
  by (simp add: seed_inventory_def pending_def heappush_def split: list.splits)

lemma seed_money_pending: "pending (seed_money s) = pending s"
  by (simp add: seed_money_def pending_def heappush_def split: list.splits)

lemma refill_pending: "pending (refill source s) = pending s"
  by (simp add: refill_def seed_inventory_pending seed_money_pending)

lemma write_line_pending: "pending (write_line s source ev line) = pending s"
  by (simp add: write_line_def pending_def Let_def)

lemma merge_step_pending:
  "merge_step s = (s', None) \<Longrightarrow> Suc (pending s') = pending s"
proof -
  assume a: "merge_step s = (s', None)"
  then obtain ts prio ord source ev h where
    pop: "heappop (heap s) = Inr ((ts, prio, ord, source, ev), h)"
    by (auto simp: merge_step_def split: sum.splits)
  have len: "Suc (length h) = length (heap s)"
    by (rule heappop_length [OF pop])
  from a obtain line where s': "s' = refill source (write_line (s\<lparr>heap := h\<rparr>) source ev line)"
    by (auto simp: merge_step_def pop split: sum.splits)
  show ?thesis
    unfolding s' refill_pending write_line_pending using len by (simp add: pending_def)
qed

function merge_loop :: "merge_state \<Rightarrow> merge_state \<times> py_exc option" where
  "merge_loop s =
     (if heap s = [] then (s, None)
      else (case merge_step s of
              (s', Some x) \<Rightarrow> (s', Some x)
            | (s', None) \<Rightarrow> merge_loop s'))"
  by pat_completeness auto
termination
  by (relation "measure pending") (auto dest: merge_step_pending [OF sym])

definition merge_logs_to_file ::
  "InventoryEvent list \<Rightarrow> MoneyEvent list \<Rightarrow> merge_state \<times> py_exc option" where
  "merge_logs_to_file inventory_events money_events =
     merge_loop (merge_init inventory_events money_events)"


subsection \<open>The loop as a two-way merge\<close>

text \<open>
  The two-way merge of the specification on the events themselves: the inventory event goes
  first unless the money event is strictly earlier. Every output carries its source.
\<close>

fun merge_spec :: "InventoryEvent list \<Rightarrow> MoneyEvent list \<Rightarrow> (string \<times> event) list" where
  "merge_spec [] [] = []"
| "merge_spec (i # is) [] = (''inventory'', Inv i) # merge_spec is []"
| "merge_spec [] (m # ms) = (''money'', Mon m) # merge_spec [] ms"
| "merge_spec (i # is) (m # ms) =
     (if timestamp i \<le> m_timestamp m
      then (''inventory'', Inv i) # merge_spec is (m # ms)
      else (''money'', Mon m) # merge_spec (i # is) ms)"

text \<open>Writing a sequence of sourced events in order, up to the first one that cannot be formatted.\<close>

fun emit_all :: "(string \<times> event) list \<Rightarrow> string list \<times> (string \<times> event) list \<times> py_exc option" where
  "emit_all [] = ([], [], None)"
| "emit_all ((src, ev) # rest) =
     (case format_line src ev of
        Inl x \<Rightarrow> ([], [], Some x)
      | Inr line \<Rightarrow>
          (case emit_all rest of (ls, es, r) \<Rightarrow> ((line @ [CHR 0x0A]) # ls, (src, ev) # es, r)))"

definition inv_entry :: "int \<Rightarrow> InventoryEvent \<Rightarrow> entry" where
  "inv_entry k e = (timestamp e, 0, k, ''inventory'', Inv e)"

definition mon_entry :: "int \<Rightarrow> MoneyEvent \<Rightarrow> entry" where
  "mon_entry k e = (m_timestamp e, 1, k, ''money'', Mon e)"

fun inv_head :: "int \<Rightarrow> InventoryEvent list \<Rightarrow> entry list" where
  "inv_head k [] = []"
| "inv_head k (i # is) = [inv_entry k i]"

fun mon_head :: "int \<Rightarrow> MoneyEvent list \<Rightarrow> entry list" where
  "mon_head k [] = []"
| "mon_head k (m # ms) = [mon_entry k m]"

text \<open>
  The state holds the unwritten inventory events \<open>pi\<close> and money events \<open>pm\<close>: the first of
  each is in the heap, the rest in the iterator.
\<close>

definition heap_ok :: "merge_state \<Rightarrow> InventoryEvent list \<Rightarrow> MoneyEvent list \<Rightarrow> bool" where
  "heap_ok s pi pm =
     (inventory_iter s = tl pi \<and> money_iter s = tl pm \<and>
      (\<exists>ki km. heap s = inv_head ki pi @ mon_head km pm
             \<or> heap s = mon_head km pm @ inv_head ki pi))"

lemma heap_ok_init: "heap_ok (merge_init I M) I M"
proof -
  have "heap (merge_init I M) = inv_head 0 I @ mon_head 0 M"
    by (cases I; cases M)
       (simp_all add: merge_init_def seed_inventory_def seed_money_def heappush_def
          inv_entry_def mon_entry_def)
  moreover have "inventory_iter (merge_init I M) = tl I" "money_iter (merge_init I M) = tl M"
    by (cases I; cases M; simp add: merge_init_def seed_inventory_def seed_money_def)+
  ultimately show ?thesis
    unfolding heap_ok_def by blast
qed

lemma heap_ok_empty: "heap_ok s pi pm \<Longrightarrow> heap s = [] \<Longrightarrow> pi = [] \<and> pm = []"
  by (cases "pi"; cases pm) (auto simp: heap_ok_def)

lemma entry_lt_inv_mon:
  "entry_lt (inv_entry ki i) (mon_entry km m) = (timestamp i \<le> m_timestamp m)"
  by (auto simp: entry_lt_def inv_entry_def mon_entry_def)

lemma entry_lt_mon_inv:
  "entry_lt (mon_entry km m) (inv_entry ki i) = (m_timestamp m < timestamp i)"
  by (auto simp: entry_lt_def inv_entry_def mon_entry_def)

lemma inv_mon_neq: "inv_entry ki i \<noteq> mon_entry km m"
  by (simp add: inv_entry_def mon_entry_def)

text \<open>What \<open>heappop\<close> returns in a state that satisfies \<open>heap_ok\<close>.\<close>

lemma heappop_inv_only:
  "heappop [inv_entry ki i] = Inr (inv_entry ki i, [])"
  by (simp add: heappop_def)

lemma heappop_mon_only:
  "heappop [mon_entry km m] = Inr (mon_entry km m, [])"
  by (simp add: heappop_def)

lemma heappop_both:
  assumes "h = [inv_entry ki i, mon_entry km m] \<or> h = [mon_entry km m, inv_entry ki i]"
  shows "heappop h = (if timestamp i \<le> m_timestamp m
                      then Inr (inv_entry ki i, [mon_entry km m])
                      else Inr (mon_entry km m, [inv_entry ki i]))"
  using assms inv_mon_neq [of ki i km m]
  by (auto simp: heappop_def entry_lt_inv_mon entry_lt_mon_inv)

lemma format_line_inv: "format_line ''inventory'' ev = format_inventory_event ev"
  by (simp add: format_line_def)

lemma format_line_mon: "format_line ''money'' ev = format_money_event ev"
  by (simp add: format_line_def)

lemma merge_step_entry:
  "heappop (heap s) = Inr ((ts, prio, ord, source, ev), h) \<Longrightarrow>
   merge_step s =
     (case format_line source ev of
        Inl x \<Rightarrow> (s\<lparr>heap := h\<rparr>, Some x)
      | Inr line \<Rightarrow> (refill source (write_line (s\<lparr>heap := h\<rparr>) source ev line), None))"
  by (simp add: merge_step_def)

lemma refill_inventory_ok:
  assumes "inventory_iter s = is" "money_iter s = tl pm" "heap s = mon_head km pm"
  shows "heap_ok (refill ''inventory'' s) is pm"
proof -
  have "heap (refill ''inventory'' s) = mon_head km pm @ inv_head (inventory_order s) is"
    using assms by (cases "is") (simp_all add: refill_def seed_inventory_def heappush_def inv_entry_def)
  moreover have "inventory_iter (refill ''inventory'' s) = tl is"
    "money_iter (refill ''inventory'' s) = tl pm"
    using assms by (cases "is"; simp add: refill_def seed_inventory_def)+
  ultimately show ?thesis unfolding heap_ok_def by blast
qed

lemma refill_money_ok:
  assumes "money_iter s = ms" "inventory_iter s = tl pi" "heap s = inv_head ki pi"
  shows "heap_ok (refill ''money'' s) pi ms"
proof -
  have "heap (refill ''money'' s) = inv_head ki pi @ mon_head (money_order s) ms"
    using assms by (cases ms) (simp_all add: refill_def seed_money_def heappush_def mon_entry_def)
  moreover have "money_iter (refill ''money'' s) = tl ms"
    "inventory_iter (refill ''money'' s) = tl pi"
    using assms by (cases ms; simp add: refill_def seed_money_def)+
  ultimately show ?thesis unfolding heap_ok_def by blast
qed

lemma write_line_fields:
  "heap (write_line s source ev line) = heap s"
  "inventory_iter (write_line s source ev line) = inventory_iter s"
  "money_iter (write_line s source ev line) = money_iter s"
  "handle (write_line s source ev line) = handle s @ [line @ [CHR 0x0A]]"
  "emitted (write_line s source ev line) = emitted s @ [(source, ev)]"
  by (simp_all add: write_line_def Let_def)

lemma refill_fields:
  "handle (refill source s) = handle s"
  "emitted (refill source s) = emitted s"
  by (simp_all add: refill_def seed_inventory_def seed_money_def split: list.splits)

text \<open>
  One pass of the loop in a state that satisfies \<open>heap_ok\<close> takes the first output of the merge
  of the unwritten events.
\<close>

definition step_takes ::
  "merge_state \<Rightarrow> string \<Rightarrow> event \<Rightarrow> InventoryEvent list \<Rightarrow> MoneyEvent list \<Rightarrow> bool" where
  "step_takes s src ev pi' pm' =
     (case format_line src ev of
        Inl x \<Rightarrow> snd (merge_step s) = Some x
                 \<and> handle (fst (merge_step s)) = handle s
                 \<and> emitted (fst (merge_step s)) = emitted s
      | Inr line \<Rightarrow> snd (merge_step s) = None
                 \<and> heap_ok (fst (merge_step s)) pi' pm'
                 \<and> handle (fst (merge_step s)) = handle s @ [line @ [CHR 0x0A]]
                 \<and> emitted (fst (merge_step s)) = emitted s @ [(src, ev)])"

lemma step_takes_inventory:
  assumes pop: "heappop (heap s) = Inr (inv_entry ki i, mon_head km pm)"
    and its: "inventory_iter s = is" "money_iter s = tl pm"
  shows "step_takes s ''inventory'' (Inv i) is pm"
proof -
  have st: "merge_step s =
     (case format_line ''inventory'' (Inv i) of
        Inl x \<Rightarrow> (s\<lparr>heap := mon_head km pm\<rparr>, Some x)
      | Inr line \<Rightarrow> (refill ''inventory''
           (write_line (s\<lparr>heap := mon_head km pm\<rparr>) ''inventory'' (Inv i) line), None))"
    using pop unfolding inv_entry_def by (rule merge_step_entry)
  show ?thesis
  proof (cases "format_line ''inventory'' (Inv i)")
    case (Inl x)
    then show ?thesis by (simp add: step_takes_def st)
  next
    case (Inr line)
    have "heap_ok (refill ''inventory''
           (write_line (s\<lparr>heap := mon_head km pm\<rparr>) ''inventory'' (Inv i) line)) is pm"
      by (rule refill_inventory_ok [where km = km]) (simp_all add: write_line_fields its)
    then show ?thesis
      by (simp add: step_takes_def st Inr refill_fields write_line_fields)
  qed
qed

lemma step_takes_money:
  assumes pop: "heappop (heap s) = Inr (mon_entry km m, inv_head ki pi)"
    and its: "money_iter s = ms" "inventory_iter s = tl pi"
  shows "step_takes s ''money'' (Mon m) pi ms"
proof -
  have st: "merge_step s =
     (case format_line ''money'' (Mon m) of
        Inl x \<Rightarrow> (s\<lparr>heap := inv_head ki pi\<rparr>, Some x)
      | Inr line \<Rightarrow> (refill ''money''
           (write_line (s\<lparr>heap := inv_head ki pi\<rparr>) ''money'' (Mon m) line), None))"
    using pop unfolding mon_entry_def by (rule merge_step_entry)
  show ?thesis
  proof (cases "format_line ''money'' (Mon m)")
    case (Inl x)
    then show ?thesis by (simp add: step_takes_def st)
  next
    case (Inr line)
    have "heap_ok (refill ''money''
           (write_line (s\<lparr>heap := inv_head ki pi\<rparr>) ''money'' (Mon m) line)) pi ms"
      by (rule refill_money_ok [where ki = ki]) (simp_all add: write_line_fields its)
    then show ?thesis
      by (simp add: step_takes_def st Inr refill_fields write_line_fields)
  qed
qed

lemma merge_step_ok:
  assumes ok: "heap_ok s pi pm" and ne: "heap s \<noteq> []"
  shows "\<exists>src ev pi' pm'. merge_spec pi pm = (src, ev) # merge_spec pi' pm'
           \<and> step_takes s src ev pi' pm'
           \<and> (pi' = pi \<or> pi' = tl pi) \<and> (pm' = pm \<or> pm' = tl pm)"
proof -
  from ok obtain ki km where
    it: "inventory_iter s = tl pi" "money_iter s = tl pm"
    and hp: "heap s = inv_head ki pi @ mon_head km pm \<or> heap s = mon_head km pm @ inv_head ki pi"
    unfolding heap_ok_def by blast
  show ?thesis
  proof (cases "pi")
    case Nil
    show ?thesis
    proof (cases pm)
      case Nil
      with \<open>pi = []\<close> hp ne show ?thesis by simp
    next
      case (Cons m ms)
      have "heappop (heap s) = Inr (mon_entry km m, inv_head ki pi)"
        using hp by (simp add: Nil Cons heappop_mon_only)
      then have "step_takes s ''money'' (Mon m) pi ms"
        by (rule step_takes_money) (simp_all add: it Cons)
      then show ?thesis
        by (intro exI [of _ "''money''"] exI [of _ "Mon m"] exI [of _ "pi"] exI [of _ ms])
           (simp add: Nil Cons)
    qed
  next
    case icons: (Cons i "is")
    show ?thesis
    proof (cases pm)
      case Nil
      have "heappop (heap s) = Inr (inv_entry ki i, mon_head km pm)"
        using hp by (simp add: Nil icons heappop_inv_only)
      then have "step_takes s ''inventory'' (Inv i) is pm"
        by (rule step_takes_inventory) (simp_all add: it icons)
      then show ?thesis
        by (intro exI [of _ "''inventory''"] exI [of _ "Inv i"] exI [of _ "is"] exI [of _ pm])
           (simp add: Nil icons)
    next
      case (Cons m ms)
      have both: "heap s = [inv_entry ki i, mon_entry km m] \<or> heap s = [mon_entry km m, inv_entry ki i]"
        using hp by (simp add: icons Cons)
      show ?thesis
      proof (cases "timestamp i \<le> m_timestamp m")
        case True
        have "heappop (heap s) = Inr (inv_entry ki i, mon_head km pm)"
          using heappop_both [OF both] True by (simp add: Cons)
        then have "step_takes s ''inventory'' (Inv i) is pm"
          by (rule step_takes_inventory) (simp_all add: it icons)
        then show ?thesis
          by (intro exI [of _ "''inventory''"] exI [of _ "Inv i"] exI [of _ "is"] exI [of _ pm])
             (simp add: True Cons icons)
      next
        case False
        have "heappop (heap s) = Inr (mon_entry km m, inv_head ki pi)"
          using heappop_both [OF both] False by (simp add: icons)
        then have "step_takes s ''money'' (Mon m) pi ms"
          by (rule step_takes_money) (simp_all add: it Cons)
        then show ?thesis
          by (intro exI [of _ "''money''"] exI [of _ "Mon m"] exI [of _ "pi"] exI [of _ ms])
             (simp add: False Cons icons)
      qed
    qed
  qed
qed


lemma merge_loop_done: "merge_loop s = (s', None) \<Longrightarrow> heap s' = []"
proof (induction s rule: merge_loop.induct)
  case (1 s)
  show ?case
  proof (cases "heap s = []")
    case True
    with "1.prems" show ?thesis by simp
  next
    case False
    obtain s1 r where st: "merge_step s = (s1, r)" by fastforce
    show ?thesis
    proof (cases r)
      case None
      with "1.prems" False st have "merge_loop s1 = (s', None)" by simp
      with "1.IH" [OF False st [symmetric, unfolded None] refl] show ?thesis by simp
    next
      case (Some x)
      with "1.prems" False st show ?thesis by simp
    qed
  qed
qed

lemma merge_loop_spec:
  "heap_ok s pi pm \<Longrightarrow>
     (case merge_loop s of (s', x) \<Rightarrow> (handle s', emitted s', x)) =
     (case emit_all (merge_spec pi pm) of (ls, es, r) \<Rightarrow> (handle s @ ls, emitted s @ es, r))"
proof (induction s arbitrary: pi pm rule: merge_loop.induct)
  case (1 s)
  show ?case
  proof (cases "heap s = []")
    case True
    with heap_ok_empty [OF "1.prems"] show ?thesis by simp
  next
    case False
    from merge_step_ok [OF "1.prems" False] obtain src ev pi' pm' where
      sp: "merge_spec pi pm = (src, ev) # merge_spec pi' pm'"
      and tk: "step_takes s src ev pi' pm'" by blast
    obtain s1 r where st: "merge_step s = (s1, r)" by fastforce
    show ?thesis
    proof (cases "format_line src ev")
      case (Inl x)
      with tk st have "r = Some x" "handle s1 = handle s" "emitted s1 = emitted s"
        by (simp_all add: step_takes_def)
      then show ?thesis
        using False st by (simp add: sp Inl)
    next
      case (Inr line)
      with tk st have r: "r = None" and ok1: "heap_ok s1 pi' pm'"
        and h1: "handle s1 = handle s @ [line @ [CHR 0x0A]]"
        and e1: "emitted s1 = emitted s @ [(src, ev)]"
        by (simp_all add: step_takes_def)
      have loop: "merge_loop s = merge_loop s1"
        using False st r by simp
      have ih: "(case merge_loop s1 of (s', x) \<Rightarrow> (handle s', emitted s', x)) =
          (case emit_all (merge_spec pi' pm') of (ls, es, r) \<Rightarrow> (handle s1 @ ls, emitted s1 @ es, r))"
        by (rule "1.IH" [OF False st [symmetric, unfolded r] refl ok1])
      show ?thesis
        unfolding loop ih sp by (simp add: Inr h1 e1 split: prod.splits)
    qed
  qed
qed

subsection \<open>Properties of the merged sequence\<close>

fun event_ts :: "event \<Rightarrow> int" where
  "event_ts (Inv e) = timestamp e"
| "event_ts (Mon e) = m_timestamp e"

text \<open>The events of one source among the outputs, in output order.\<close>

fun inventory_of :: "(string \<times> event) list \<Rightarrow> InventoryEvent list" where
  "inventory_of [] = []"
| "inventory_of ((src, Inv e) # xs) =
     (if src = ''inventory'' then e # inventory_of xs else inventory_of xs)"
| "inventory_of ((src, Mon e) # xs) = inventory_of xs"

fun money_of :: "(string \<times> event) list \<Rightarrow> MoneyEvent list" where
  "money_of [] = []"
| "money_of ((src, Mon e) # xs) =
     (if src = ''money'' then e # money_of xs else money_of xs)"
| "money_of ((src, Inv e) # xs) = money_of xs"

text \<open>The line the loop writes for an output: the formatted event and a newline.\<close>

definition output_line :: "string \<times> event \<Rightarrow> py_exc + string" where
  "output_line x =
     (case format_line (fst x) (snd x) of Inl e \<Rightarrow> Inl e | Inr line \<Rightarrow> Inr (line @ [CHR 0x0A]))"

text \<open>The timestamps \<^verbatim>\<open>datetime.utcfromtimestamp\<close> accepts.\<close>

definition in_range :: "int \<Rightarrow> bool" where
  "in_range ts = (- 62135596800 \<le> ts \<and> ts \<le> 253402300799)"

lemma inventory_of_append: "inventory_of (xs @ ys) = inventory_of xs @ inventory_of ys"
  by (induction xs rule: inventory_of.induct) simp_all

lemma money_of_append: "money_of (xs @ ys) = money_of xs @ money_of ys"
  by (induction xs rule: money_of.induct) simp_all

lemma inventory_of_merge_spec: "inventory_of (merge_spec I M) = I"
  by (induction I M rule: merge_spec.induct) simp_all

lemma money_of_merge_spec: "money_of (merge_spec I M) = M"
  by (induction I M rule: merge_spec.induct) simp_all

lemma length_merge_spec: "length (merge_spec I M) = length I + length M"
  by (induction I M rule: merge_spec.induct) simp_all

lemma merge_spec_elems:
  "x \<in> set (merge_spec I M) \<Longrightarrow>
     (\<exists>i \<in> set I. x = (''inventory'', Inv i)) \<or> (\<exists>m \<in> set M. x = (''money'', Mon m))"
  by (induction I M rule: merge_spec.induct) (auto split: if_splits)

lemma sorted_merge_spec:
  "sorted (map timestamp I) \<Longrightarrow> sorted (map m_timestamp M) \<Longrightarrow>
     sorted (map (event_ts \<circ> snd) (merge_spec I M))"
proof (induction I M rule: merge_spec.induct)
  case 1
  then show ?case by simp
next
  case (2 i "is")
  then show ?case by (auto dest!: merge_spec_elems)
next
  case (3 m ms)
  then show ?case by (auto dest!: merge_spec_elems)
next
  case (4 i "is" m ms)
  show ?case
  proof (cases "timestamp i \<le> m_timestamp m")
    case True
    have "sorted (map (event_ts \<circ> snd) (merge_spec is (m # ms)))"
      by (rule "4.IH"(1) [OF True]) (use "4.prems" in simp_all)
    moreover have "\<forall>x \<in> set (merge_spec is (m # ms)). timestamp i \<le> event_ts (snd x)"
    proof
      fix x assume "x \<in> set (merge_spec is (m # ms))"
      from merge_spec_elems [OF this] show "timestamp i \<le> event_ts (snd x)"
        using "4.prems" True by fastforce
    qed
    ultimately show ?thesis using True by (simp add: comp_def)
  next
    case False
    have "sorted (map (event_ts \<circ> snd) (merge_spec (i # is) ms))"
      by (rule "4.IH"(2) [OF False]) (use "4.prems" in simp_all)
    moreover have "\<forall>x \<in> set (merge_spec (i # is) ms). m_timestamp m \<le> event_ts (snd x)"
    proof
      fix x assume "x \<in> set (merge_spec (i # is) ms)"
      from merge_spec_elems [OF this] show "m_timestamp m \<le> event_ts (snd x)"
        using "4.prems" False by fastforce
    qed
    ultimately show ?thesis using False by (simp add: comp_def)
  qed
qed

text \<open>After a money event, every inventory event still to come is strictly later.\<close>

lemma merge_spec_tie:
  "sorted (map timestamp I) \<Longrightarrow> sorted (map m_timestamp M) \<Longrightarrow>
   merge_spec I M = as @ (''money'', x) # bs \<Longrightarrow> (''inventory'', y) \<in> set bs \<Longrightarrow>
     event_ts x < event_ts y"
proof (induction I M arbitrary: as rule: merge_spec.induct)
  case 1
  then show ?case by simp
next
  case (2 i "is")
  have "(''money'', x) \<in> set (merge_spec (i # is) [])"
    unfolding "2.prems"(3) by simp
  then show ?case by (auto dest!: merge_spec_elems)
next
  case (3 m ms)
  have "(''inventory'', y) \<in> set (merge_spec [] (m # ms))"
    unfolding "3.prems"(3) using "3.prems"(4) by simp
  then show ?case by (auto dest!: merge_spec_elems)
next
  case (4 i "is" m ms)
  show ?case
  proof (cases "timestamp i \<le> m_timestamp m")
    case True
    with "4.prems"(3) obtain as' where as: "as = (''inventory'', Inv i) # as'"
      and rest: "merge_spec is (m # ms) = as' @ (''money'', x) # bs"
      by (cases as) auto
    show ?thesis
      by (rule "4.IH"(1) [OF True _ _ rest "4.prems"(4)]) (use "4.prems" in auto)
  next
    case False
    show ?thesis
    proof (cases as)
      case Nil
      with "4.prems"(3) False have x: "x = Mon m" and bs: "bs = merge_spec (i # is) ms"
        by auto
      from "4.prems"(4) obtain j where j: "j \<in> set (i # is)" "y = Inv j"
        unfolding bs by (auto dest!: merge_spec_elems)
      then have "timestamp i \<le> timestamp j"
        using "4.prems"(1) by auto
      then show ?thesis using False x j by simp
    next
      case (Cons a as')
      with "4.prems"(3) False have rest: "merge_spec (i # is) ms = as' @ (''money'', x) # bs"
        by auto
      show ?thesis
        by (rule "4.IH"(2) [OF False _ _ rest "4.prems"(4)]) (use "4.prems" in auto)
    qed
  qed
qed

lemma merge_spec_sources:
  "x \<in> set (merge_spec I M) \<Longrightarrow> fst x = ''inventory'' \<Longrightarrow> \<exists>i. x = (''inventory'', Inv i)"
  by (auto dest!: merge_spec_elems)

lemma merge_spec_sources_money:
  "x \<in> set (merge_spec I M) \<Longrightarrow> fst x = ''money'' \<Longrightarrow> \<exists>m. x = (''money'', Mon m)"
  by (auto dest!: merge_spec_elems)

lemma merge_spec_tie_index:
  assumes "sorted (map timestamp I)" "sorted (map m_timestamp M)"
    and "i < j" "j < length (merge_spec I M)"
    and "fst (merge_spec I M ! i) = ''money''"
    and "fst (merge_spec I M ! j) = ''inventory''"
  shows "event_ts (snd (merge_spec I M ! i)) < event_ts (snd (merge_spec I M ! j))"
proof -
  let ?out = "merge_spec I M"
  have i: "i < length ?out" using assms(3,4) by simp
  obtain x where x: "?out ! i = (''money'', x)"
    using assms(5) by (cases "?out ! i") simp
  obtain y where y: "?out ! j = (''inventory'', y)"
    using assms(6) by (cases "?out ! j") simp
  have split: "?out = take i ?out @ (''money'', x) # drop (Suc i) ?out"
    using id_take_nth_drop [OF i] x by simp
  have "?out ! j \<in> set (drop (Suc i) ?out)"
    using assms(3,4) by (auto simp: in_set_conv_nth intro!: exI [of _ "j - Suc i"])
  then have "(''inventory'', y) \<in> set (drop (Suc i) ?out)" by (simp add: y)
  from merge_spec_tie [OF assms(1,2) split this] show ?thesis by (simp add: x y)
qed

subsection \<open>Writing the merged sequence\<close>

lemma emit_all_prefix:
  "emit_all xs = (ls, es, r) \<Longrightarrow>
     prefix es xs \<and> map output_line es = map Inr ls \<and> (r = None \<longrightarrow> es = xs)"
proof (induction xs arbitrary: ls es r)
  case Nil
  then show ?case by simp
next
  case (Cons a xs)
  obtain src ev where a: "a = (src, ev)" by (cases a) auto
  show ?case
  proof (cases "format_line src ev")
    case (Inl x)
    with Cons.prems show ?thesis by (auto simp: a)
  next
    case (Inr line)
    obtain ls' es' r' where rest: "emit_all xs = (ls', es', r')" by (cases "emit_all xs") auto
    from Cons.IH [OF rest] Cons.prems show ?thesis
      by (auto simp: a Inr rest output_line_def)
  qed
qed

lemma emit_all_complete:
  "(\<And>x. x \<in> set xs \<Longrightarrow> \<exists>line. format_line (fst x) (snd x) = Inr line) \<Longrightarrow>
     snd (snd (emit_all xs)) = None"
proof (induction xs)
  case Nil
  then show ?case by simp
next
  case (Cons a xs)
  obtain src ev where a: "a = (src, ev)" by (cases a) auto
  from Cons.prems [of a] obtain line where l: "format_line src ev = Inr line"
    by (auto simp: a)
  have "snd (snd (emit_all xs)) = None"
    by (rule Cons.IH) (use Cons.prems in auto)
  then show ?case
    by (cases "emit_all xs") (simp add: a l)
qed

lemma format_timestamp_ok: "in_range ts \<Longrightarrow> \<exists>l. format_timestamp ts = Inr l"
  by (simp add: in_range_def format_timestamp_def Let_def split_beta)

lemma format_timestamp_fails: "\<not> in_range ts \<Longrightarrow> format_timestamp ts = Inl TimestampOutOfRange"
  by (auto simp: in_range_def format_timestamp_def)

lemma format_line_ok:
  assumes "x \<in> set (merge_spec I M)"
    and "\<And>e. e \<in> set I \<Longrightarrow> in_range (timestamp e)"
    and "\<And>e. e \<in> set M \<Longrightarrow> in_range (m_timestamp e)"
  shows "\<exists>line. format_line (fst x) (snd x) = Inr line"
proof -
  from merge_spec_elems [OF assms(1)] show ?thesis
  proof
    assume "\<exists>i\<in>set I. x = (''inventory'', Inv i)"
    then obtain i where i: "i \<in> set I" "x = (''inventory'', Inv i)" by blast
    from format_timestamp_ok [OF assms(2) [OF i(1)]] show ?thesis
      by (auto simp: i(2) format_line_def)
  next
    assume "\<exists>m\<in>set M. x = (''money'', Mon m)"
    then obtain m where m: "m \<in> set M" "x = (''money'', Mon m)" by blast
    from format_timestamp_ok [OF assms(3) [OF m(1)]] show ?thesis
      by (auto simp: m(2) format_line_def)
  qed
qed

text \<open>What \<^verbatim>\<open>merge_logs_to_file\<close> has written when it ends, with or without an exception.\<close>

lemma merge_logs_result:
  "emit_all (merge_spec I M) =
     (handle (fst (merge_logs_to_file I M)), emitted (fst (merge_logs_to_file I M)),
      snd (merge_logs_to_file I M))"
proof -
  have h0: "handle (merge_init I M) = []" "emitted (merge_init I M) = []"
    by (simp_all add: merge_init_def seed_inventory_def seed_money_def split: list.splits)
  show ?thesis
    using merge_loop_spec [OF heap_ok_init, of I M]
    by (cases "merge_loop (merge_init I M)"; cases "emit_all (merge_spec I M)")
       (simp add: merge_logs_to_file_def h0 del: merge_loop.simps)
qed

lemma merge_logs_facts:
  "prefix (emitted (fst (merge_logs_to_file I M))) (merge_spec I M)"
  "map output_line (emitted (fst (merge_logs_to_file I M)))
     = map Inr (handle (fst (merge_logs_to_file I M)))"
  "snd (merge_logs_to_file I M) = None \<Longrightarrow> emitted (fst (merge_logs_to_file I M)) = merge_spec I M"
  using emit_all_prefix [OF merge_logs_result [of I M]] by simp_all

lemma prefix_nth: "prefix xs ys \<Longrightarrow> i < length xs \<Longrightarrow> xs ! i = ys ! i"
  by (auto simp: prefix_def nth_append)

lemma prefix_sorted_map: "prefix xs ys \<Longrightarrow> sorted (map f ys) \<Longrightarrow> sorted (map f xs)"
  by (auto simp: prefix_def sorted_append)

lemma prefix_inventory_of: "prefix xs ys \<Longrightarrow> prefix (inventory_of xs) (inventory_of ys)"
  by (auto simp: prefix_def inventory_of_append)

lemma prefix_money_of: "prefix xs ys \<Longrightarrow> prefix (money_of xs) (money_of ys)"
  by (auto simp: prefix_def money_of_append)

text \<open>
  C1. When the timestamps of each input sequence are non-decreasing, the events behind the
  lines \<^verbatim>\<open>merge_logs_to_file\<close> has written have non-decreasing timestamps; an inventory event
  never comes after a money event of the same timestamp; and the events of each source appear
  in their arrival order (all of them when the merge ends without an exception). The lines of
  the file are these events, formatted, in this order.
\<close>

theorem merged_output_ordered:
  assumes "sorted (map timestamp I)" and "sorted (map m_timestamp M)"
  shows "let out = emitted (fst (merge_logs_to_file I M)) in
           sorted (map (event_ts \<circ> snd) out)
         \<and> (\<forall>i j. i < j \<and> j < length out
                \<and> event_ts (snd (out ! i)) = event_ts (snd (out ! j))
                \<and> fst (out ! i) = ''money'' \<longrightarrow> fst (out ! j) \<noteq> ''inventory'')
         \<and> prefix (inventory_of out) I \<and> prefix (money_of out) M
         \<and> (snd (merge_logs_to_file I M) = None \<longrightarrow> inventory_of out = I \<and> money_of out = M)
         \<and> map output_line out = map Inr (handle (fst (merge_logs_to_file I M)))"
proof -
  define out where "out = emitted (fst (merge_logs_to_file I M))"
  have pre: "prefix out (merge_spec I M)"
    unfolding out_def by (rule merge_logs_facts(1))
  have 1: "sorted (map (event_ts \<circ> snd) out)"
    by (rule prefix_sorted_map [OF pre sorted_merge_spec [OF assms]])
  have 2: "fst (out ! j) \<noteq> ''inventory''"
    if "i < j" "j < length out" "event_ts (snd (out ! i)) = event_ts (snd (out ! j))"
      "fst (out ! i) = ''money''" for i j
  proof
    assume inv: "fst (out ! j) = ''inventory''"
    have len: "length out \<le> length (merge_spec I M)"
      by (rule prefix_length_le [OF pre])
    have i: "out ! i = merge_spec I M ! i" and j: "out ! j = merge_spec I M ! j"
      using that(1,2) by (simp_all add: prefix_nth [OF pre])
    have "event_ts (snd (merge_spec I M ! i)) < event_ts (snd (merge_spec I M ! j))"
      by (rule merge_spec_tie_index [OF assms that(1)]) (use that len inv i j in simp_all)
    with that(3) i j show False by simp
  qed
  have 3: "prefix (inventory_of out) I"
    using prefix_inventory_of [OF pre] by (simp add: inventory_of_merge_spec)
  have 4: "prefix (money_of out) M"
    using prefix_money_of [OF pre] by (simp add: money_of_merge_spec)
  have 5: "inventory_of out = I \<and> money_of out = M" if "snd (merge_logs_to_file I M) = None"
    unfolding out_def merge_logs_facts(3) [OF that]
    by (simp add: inventory_of_merge_spec money_of_merge_spec)
  have 6: "map output_line out = map Inr (handle (fst (merge_logs_to_file I M)))"
    unfolding out_def by (rule merge_logs_facts(2))
  show ?thesis
    unfolding Let_def out_def [symmetric] using 1 2 3 4 5 6 by blast
qed

text \<open>The events of the lines \<^verbatim>\<open>[100] ITEM_ADD | 7, (5, 3)\<close> and \<^verbatim>\<open>100|1|MONEY_ADD,50,initial\<close>.\<close>

definition inv_100 :: InventoryEvent where
  "inv_100 = \<lparr>timestamp = 100, player_id = 7, action = ''ITEM_ADD'', items = [(5, 3)],
              line_no = Some 1, raw_line = text_of ''[100] ITEM_ADD | 7, (5, 3)''\<rparr>"

definition mon_100 :: MoneyEvent where
  "mon_100 = \<lparr>m_timestamp = 100, m_player_id = 1, m_action = ''MONEY_ADD'', amount = 50,
              reason = ''initial'', m_line_no = Some 1, m_raw_line = ''100|1|MONEY_ADD,50,initial''\<rparr>"

lemma merge_100:
  "emitted (fst (merge_logs_to_file [inv_100] [mon_100]))
     = [(''inventory'', Inv inv_100), (''money'', Mon mon_100)]"
  "handle (fst (merge_logs_to_file [inv_100] [mon_100]))
     = [''[70-01-01 00:01:40] 7 | ITEM_ADD (5, 3)'' @ [CHR 0x0A],
        ''[70-01-01 00:01:40] 1 | MONEY_ADD | 50 | initial'' @ [CHR 0x0A]]"
  "snd (merge_logs_to_file [inv_100] [mon_100]) = None"
  by code_simp+

theorem merged_output_ordered_witness:
  "sorted (map timestamp [inv_100]) \<and> sorted (map m_timestamp [mon_100])
   \<and> emitted (fst (merge_logs_to_file [inv_100] [mon_100]))
        = [(''inventory'', Inv inv_100), (''money'', Mon mon_100)]
   \<and> sorted (map (event_ts \<circ> snd) (emitted (fst (merge_logs_to_file [inv_100] [mon_100]))))
   \<and> inventory_of (emitted (fst (merge_logs_to_file [inv_100] [mon_100]))) = [inv_100]
   \<and> money_of (emitted (fst (merge_logs_to_file [inv_100] [mon_100]))) = [mon_100]"
proof -
  have a: "sorted (map timestamp [inv_100])" and b: "sorted (map m_timestamp [mon_100])"
    by simp_all
  show ?thesis
    using merged_output_ordered [OF a b] merge_100
    by (simp add: Let_def)
qed

text \<open>
  An inventory event one second past 9999-12-31 23:59:59, as the line
  \<^verbatim>\<open>[253402300800] ITEM_ADD | 1, (1, 1)\<close> gives it.
\<close>

definition ev_far :: InventoryEvent where
  "ev_far = \<lparr>timestamp = 253402300800, player_id = 1, action = ''ITEM_ADD'', items = [(1, 1)],
             line_no = Some 1, raw_line = text_of ''[253402300800] ITEM_ADD | 1, (1, 1)''\<rparr>"

theorem merge_stops_at_unformattable_timestamp:
  "snd (merge_logs_to_file [ev_far] []) = Some TimestampOutOfRange
   \<and> handle (fst (merge_logs_to_file [ev_far] [])) = []
   \<and> length (handle (fst (merge_logs_to_file [ev_far] [])))
        \<noteq> length [ev_far] + length ([] :: MoneyEvent list)"
  by code_simp

text \<open>
  C6, amended. When every timestamp of the two input sequences is one that
  \<^verbatim>\<open>datetime.utcfromtimestamp\<close> accepts, merging \<open>N\<close> inventory events and \<open>M\<close> money events ends
  without an exception and writes exactly \<open>N + M\<close> lines, one for each input event: the
  inventory events behind the lines are the inventory input, the money events the money input,
  each in its order. The merge is a function of the two sequences, so equal inputs give equal
  outputs.
\<close>

theorem merge_writes_every_event_once:
  assumes "\<forall>e \<in> set I. in_range (timestamp e)" and "\<forall>e \<in> set M. in_range (m_timestamp e)"
  shows "snd (merge_logs_to_file I M) = None
       \<and> length (handle (fst (merge_logs_to_file I M))) = length I + length M
       \<and> map output_line (emitted (fst (merge_logs_to_file I M)))
            = map Inr (handle (fst (merge_logs_to_file I M)))
       \<and> inventory_of (emitted (fst (merge_logs_to_file I M))) = I
       \<and> money_of (emitted (fst (merge_logs_to_file I M))) = M
       \<and> (I = I' \<and> M = M' \<longrightarrow> merge_logs_to_file I M = merge_logs_to_file I' M')"
proof -
  have "snd (snd (emit_all (merge_spec I M))) = None"
    by (rule emit_all_complete) (rule format_line_ok, use assms in auto)
  then have none: "snd (merge_logs_to_file I M) = None"
    by (simp add: merge_logs_result)
  have em: "emitted (fst (merge_logs_to_file I M)) = merge_spec I M"
    by (rule merge_logs_facts(3) [OF none])
  have lines: "map output_line (emitted (fst (merge_logs_to_file I M)))
            = map Inr (handle (fst (merge_logs_to_file I M)))"
    by (rule merge_logs_facts(2))
  have "length (handle (fst (merge_logs_to_file I M)))
          = length (map output_line (emitted (fst (merge_logs_to_file I M))))"
    unfolding lines by simp
  then have len: "length (handle (fst (merge_logs_to_file I M))) = length I + length M"
    by (simp add: em length_merge_spec)
  show ?thesis
    using none len lines by (simp add: em inventory_of_merge_spec money_of_merge_spec)
qed

theorem merge_writes_every_event_once_witness:
  "in_range (timestamp inv_100) \<and> in_range (m_timestamp mon_100)
   \<and> snd (merge_logs_to_file [inv_100] [mon_100]) = None
   \<and> length (handle (fst (merge_logs_to_file [inv_100] [mon_100]))) = 2
   \<and> inventory_of (emitted (fst (merge_logs_to_file [inv_100] [mon_100]))) = [inv_100]
   \<and> money_of (emitted (fst (merge_logs_to_file [inv_100] [mon_100]))) = [mon_100]"
proof -
  have a: "\<forall>e \<in> set [inv_100]. in_range (timestamp e)"
    by (simp add: inv_100_def in_range_def)
  have b: "\<forall>e \<in> set [mon_100]. in_range (m_timestamp e)"
    by (simp add: mon_100_def in_range_def)
  show ?thesis
    using merge_writes_every_event_once [OF a b] a b by simp
qed

subsection \<open>The heap during the loop\<close>

text \<open>
  The state at the head of the loop after \<open>n\<close> passes; the last such state when the loop has
  ended sooner, by an empty heap or by an exception.
\<close>

fun merge_states :: "nat \<Rightarrow> merge_state \<Rightarrow> merge_state" where
  "merge_states 0 s = s"
| "merge_states (Suc n) s =
     (if heap s = [] then s
      else (case merge_step s of
              (s', Some x) \<Rightarrow> s
            | (s', None) \<Rightarrow> merge_states n s'))"

definition entry_source :: "entry \<Rightarrow> string" where
  "entry_source e = fst (snd (snd (snd e)))"

definition of_source :: "string \<Rightarrow> entry list \<Rightarrow> entry list" where
  "of_source src h = filter (\<lambda>e. entry_source e = src) h"

lemma of_source_heads:
  "of_source ''inventory'' (inv_head ki pi) = inv_head ki pi"
  "of_source ''inventory'' (mon_head km pm) = []"
  "of_source ''money'' (mon_head km pm) = mon_head km pm"
  "of_source ''money'' (inv_head ki pi) = []"
  by (cases "pi"; cases pm; simp add: of_source_def entry_source_def inv_entry_def mon_entry_def)+

lemma of_source_append: "of_source src (xs @ ys) = of_source src xs @ of_source src ys"
  by (simp add: of_source_def)

lemma heap_ok_sources:
  assumes "heap_ok s pi pm"
  shows "length (of_source ''inventory'' (heap s)) \<le> 1"
    and "length (of_source ''money'' (heap s)) \<le> 1"
    and "length (heap s) \<le> 2"
    and "of_source ''inventory'' (heap s) = [] \<longleftrightarrow> pi = []"
    and "of_source ''money'' (heap s) = [] \<longleftrightarrow> pm = []"
proof -
  from assms obtain ki km where
    hp: "heap s = inv_head ki pi @ mon_head km pm \<or> heap s = mon_head km pm @ inv_head ki pi"
    unfolding heap_ok_def by blast
  have i: "of_source ''inventory'' (heap s) = inv_head ki pi"
    using hp by (auto simp: of_source_append of_source_heads)
  have m: "of_source ''money'' (heap s) = mon_head km pm"
    using hp by (auto simp: of_source_append of_source_heads)
  show "length (of_source ''inventory'' (heap s)) \<le> 1"
    unfolding i by (cases "pi") simp_all
  show "length (of_source ''money'' (heap s)) \<le> 1"
    unfolding m by (cases pm) simp_all
  show "length (heap s) \<le> 2"
    using hp by (cases "pi"; cases pm) auto
  show "of_source ''inventory'' (heap s) = [] \<longleftrightarrow> pi = []"
    unfolding i by (cases "pi") simp_all
  show "of_source ''money'' (heap s) = [] \<longleftrightarrow> pm = []"
    unfolding m by (cases pm) simp_all
qed

lemma heap_ok_keys:
  assumes "heap_ok s pi pm" and "a \<in> set (heap s)" and "b \<in> set (heap s)" and "a \<noteq> b"
  shows "entry_lt a b \<or> entry_lt b a"
proof -
  from assms(1) obtain ki km where
    hp: "heap s = inv_head ki pi @ mon_head km pm \<or> heap s = mon_head km pm @ inv_head ki pi"
    unfolding heap_ok_def by blast
  show ?thesis
    using hp assms(2-) 
    by (cases "pi"; cases pm) (auto simp: entry_lt_inv_mon entry_lt_mon_inv)
qed

lemma merge_states_ok:
  "heap_ok s pi pm \<Longrightarrow>
     \<exists>pi' pm'. heap_ok (merge_states n s) pi' pm' \<and> (pi = [] \<longrightarrow> pi' = []) \<and> (pm = [] \<longrightarrow> pm' = [])"
proof (induction n arbitrary: s pi pm)
  case 0
  then show ?case by auto
next
  case (Suc n)
  show ?case
  proof (cases "heap s = []")
    case True
    with Suc.prems show ?thesis by auto
  next
    case False
    from merge_step_ok [OF Suc.prems False] obtain src ev pi' pm' where
      tk: "step_takes s src ev pi' pm'"
      and sub: "pi' = pi \<or> pi' = tl pi" "pm' = pm \<or> pm' = tl pm" by blast
    obtain s1 r where st: "merge_step s = (s1, r)" by fastforce
    show ?thesis
    proof (cases "format_line src ev")
      case (Inl x)
      with tk st have "r = Some x" by (simp add: step_takes_def)
      with st False Suc.prems show ?thesis by auto
    next
      case (Inr line)
      with tk st have r: "r = None" and ok1: "heap_ok s1 pi' pm'"
        by (simp_all add: step_takes_def)
      from Suc.IH [OF ok1] obtain pi'' pm'' where
        "heap_ok (merge_states n s1) pi'' pm''" "pi' = [] \<longrightarrow> pi'' = []" "pm' = [] \<longrightarrow> pm'' = []"
        by blast
      moreover have "merge_states (Suc n) s = merge_states n s1"
        using False st r by simp
      moreover have "pi = [] \<longrightarrow> pi' = []" "pm = [] \<longrightarrow> pm' = []"
        using sub by auto
      ultimately show ?thesis by auto
    qed
  qed
qed

lemma merge_states_stuck:
  "heap s = [] \<or> snd (merge_step s) \<noteq> None \<Longrightarrow> merge_states k s = s"
  by (cases k) (auto split: prod.splits option.splits)

lemma merge_states_add: "merge_states (n + k) s = merge_states k (merge_states n s)"
proof (induction n arbitrary: s)
  case 0
  then show ?case by simp
next
  case (Suc n)
  show ?case
  proof (cases "heap s = [] \<or> snd (merge_step s) \<noteq> None")
    case True
    show ?thesis by (simp only: merge_states_stuck [OF True])
  next
    case False
    then obtain s1 where "merge_step s = (s1, None)" by (cases "merge_step s") auto
    with False show ?thesis by (simp add: Suc.IH)
  qed
qed

lemma merge_loop_states: "merge_loop (merge_states n s) = merge_loop s"
proof (induction n arbitrary: s)
  case 0
  then show ?case by simp
next
  case (Suc n)
  show ?case
  proof (cases "heap s = [] \<or> snd (merge_step s) \<noteq> None")
    case True
    show ?thesis by (simp only: merge_states_stuck [OF True])
  next
    case False
    then obtain s1 where st: "merge_step s = (s1, None)" by (cases "merge_step s") auto
    have "merge_states (Suc n) s = merge_states n s1" using False st by simp
    moreover have "merge_loop s = merge_loop s1" using False st by simp
    ultimately show ?thesis by (simp only: Suc.IH)
  qed
qed

text \<open>
  C9. At the head of the loop after any number of passes, the heap holds at most one entry of
  each source, so at most two entries; a source with no entry in the heap has an exhausted
  iterator and never has an entry again; the loop ends at once in a state with an empty heap,
  it always ends, and when it ends without an exception the heap is empty.
\<close>

theorem heap_holds_one_entry_per_source:
  "let s = merge_states n (merge_init I M) in
     length (of_source ''inventory'' (heap s)) \<le> 1
   \<and> length (of_source ''money'' (heap s)) \<le> 1
   \<and> length (heap s) \<le> 2
   \<and> (of_source ''inventory'' (heap s) = [] \<longrightarrow>
        inventory_iter s = []
        \<and> of_source ''inventory'' (heap (merge_states (n + k) (merge_init I M))) = [])
   \<and> (of_source ''money'' (heap s) = [] \<longrightarrow>
        money_iter s = []
        \<and> of_source ''money'' (heap (merge_states (n + k) (merge_init I M))) = [])
   \<and> (heap s = [] \<longrightarrow> merge_loop s = (s, None))
   \<and> merge_loop s = merge_logs_to_file I M
   \<and> (snd (merge_logs_to_file I M) = None \<longrightarrow> heap (fst (merge_logs_to_file I M)) = [])"
proof -
  define s where "s = merge_states n (merge_init I M)"
  from merge_states_ok [OF heap_ok_init, of n I M] obtain pi pm where
    ok: "heap_ok s pi pm" unfolding s_def by blast
  from merge_states_ok [OF ok, of k] obtain pi' pm' where
    ok': "heap_ok (merge_states k s) pi' pm'" and e: "pi = [] \<longrightarrow> pi' = []" "pm = [] \<longrightarrow> pm' = []"
    by blast
  have later: "merge_states (n + k) (merge_init I M) = merge_states k s"
    unfolding s_def by (rule merge_states_add)
  have 1: "length (of_source ''inventory'' (heap s)) \<le> 1"
    and 2: "length (of_source ''money'' (heap s)) \<le> 1"
    and 3: "length (heap s) \<le> 2"
    by (rule heap_ok_sources [OF ok])+
  have 4: "inventory_iter s = [] \<and> of_source ''inventory'' (heap (merge_states k s)) = []"
    if "of_source ''inventory'' (heap s) = []"
  proof -
    from that have "pi = []" by (simp add: heap_ok_sources(4) [OF ok])
    with e have "pi' = []" by simp
    then have "of_source ''inventory'' (heap (merge_states k s)) = []"
      by (simp add: heap_ok_sources(4) [OF ok'])
    moreover have "inventory_iter s = []"
      using ok \<open>pi = []\<close> by (simp add: heap_ok_def)
    ultimately show ?thesis by simp
  qed
  have 5: "money_iter s = [] \<and> of_source ''money'' (heap (merge_states k s)) = []"
    if "of_source ''money'' (heap s) = []"
  proof -
    from that have "pm = []" by (simp add: heap_ok_sources(5) [OF ok])
    with e have "pm' = []" by simp
    then have "of_source ''money'' (heap (merge_states k s)) = []"
      by (simp add: heap_ok_sources(5) [OF ok'])
    moreover have "money_iter s = []"
      using ok \<open>pm = []\<close> by (simp add: heap_ok_def)
    ultimately show ?thesis by simp
  qed
  have 6: "merge_loop s = (s, None)" if "heap s = []"
    using that by simp
  have 7: "merge_loop s = merge_logs_to_file I M"
    unfolding s_def merge_logs_to_file_def by (rule merge_loop_states)
  have 8: "heap (fst (merge_logs_to_file I M)) = []" if "snd (merge_logs_to_file I M) = None"
    by (rule merge_loop_done [of "merge_init I M"])
       (use that in \<open>simp add: merge_logs_to_file_def prod_eq_iff del: merge_loop.simps\<close>)
  show ?thesis
    unfolding Let_def s_def [symmetric] later
    using 1 2 3 4 5 6 7 8 by blast
qed

theorem heap_holds_one_entry_per_source_witness:
  "heap (merge_states 1 (merge_init [inv_100] [mon_100])) = [(100, 1, 0, ''money'', Mon mon_100)]
   \<and> of_source ''inventory'' (heap (merge_states 1 (merge_init [inv_100] [mon_100]))) = []
   \<and> inventory_iter (merge_states 1 (merge_init [inv_100] [mon_100])) = []
   \<and> of_source ''inventory'' (heap (merge_states (1 + 1) (merge_init [inv_100] [mon_100]))) = []
   \<and> heap (merge_states 2 (merge_init [inv_100] [mon_100])) = []
   \<and> merge_loop (merge_states 2 (merge_init [inv_100] [mon_100]))
        = (merge_states 2 (merge_init [inv_100] [mon_100]), None)"
proof -
  have a: "heap (merge_states 1 (merge_init [inv_100] [mon_100])) = [(100, 1, 0, ''money'', Mon mon_100)]"
    by code_simp
  have b: "of_source ''inventory'' (heap (merge_states 1 (merge_init [inv_100] [mon_100]))) = []"
    by code_simp
  have c: "heap (merge_states 2 (merge_init [inv_100] [mon_100])) = []"
    by code_simp
  show ?thesis
    using heap_holds_one_entry_per_source [of 1 "[inv_100]" "[mon_100]" 1]
      heap_holds_one_entry_per_source [of 2 "[inv_100]" "[mon_100]" 0] a b c
    by (simp add: Let_def del: merge_loop.simps merge_states.simps)
qed

section \<open>Parsing an inventory line (parsers.py)\<close>

text \<open>
  What the parser takes from the interpreter rather than from the repository:
  \<^verbatim>\<open>sys.get_int_max_str_digits()\<close>, the longest numeral \<^verbatim>\<open>int\<close> converts (4300 by default since
  Python 3.11, 0 for no limit; the interpreter accepts no other value below 640), and the
  decimal digit value of a code point beyond ASCII in the interpreter's Unicode database, which
  grows from one version to the next.
\<close>

record py_config =
  int_max_str_digits :: nat
  unicode_decimal :: "int \<Rightarrow> int option"

text \<open>
  \<open>is_space\<close> is \<^verbatim>\<open>str.isspace\<close> on one code point, which is also the class \<^verbatim>\<open>\s\<close> of a pattern
  on text and what \<^verbatim>\<open>str.strip()\<close> removes: U+0009 to U+000D, U+001C to U+001F, U+0020, U+0085,
  U+00A0, U+1680, U+2000 to U+200A, U+2028, U+2029, U+202F, U+205F and U+3000.
\<close>

definition is_space :: "int \<Rightarrow> bool" where
  "is_space c =
     (c \<in> {9, 10, 11, 12, 13, 28, 29, 30, 31, 32, 133, 160, 5760, 8232, 8233, 8239, 8287, 12288}
      \<or> (8192 \<le> c \<and> c \<le> 8202))"

text \<open>
  The decimal digit value of a code point, from 0 to 9: the ASCII digits, and beyond ASCII what
  the Unicode database says. No whitespace character is a decimal digit. \<open>is_digit\<close> is the
  class \<^verbatim>\<open>\d\<close> of a pattern on text.
\<close>

definition decimal_of :: "py_config \<Rightarrow> int \<Rightarrow> int option" where
  "decimal_of cfg c =
     (if c < 128 then (if 48 \<le> c \<and> c \<le> 57 then Some (c - 48) else None)
      else if is_space c then None
      else (case unicode_decimal cfg c of
              None \<Rightarrow> None
            | Some v \<Rightarrow> if 0 \<le> v \<and> v \<le> 9 then Some v else None))"

definition is_digit :: "py_config \<Rightarrow> int \<Rightarrow> bool" where
  "is_digit cfg c = (decimal_of cfg c \<noteq> None)"

text \<open>\<^verbatim>\<open>str.strip()\<close>.\<close>

definition strip :: "py_str \<Rightarrow> py_str" where
  "strip s = rev (dropWhile is_space (rev (dropWhile is_space s)))"

text \<open>\<^verbatim>\<open>str.split(",")\<close>: the pieces between the commas (U+002C), empty pieces included.\<close>

fun split_comma :: "py_str \<Rightarrow> py_str list" where
  "split_comma [] = [[]]"
| "split_comma (c # cs) =
     (if c = 44 then [] # split_comma cs
      else (case split_comma cs of [] \<Rightarrow> [[c]] | t # ts \<Rightarrow> (c # t) # ts))"

text \<open>
  \<^verbatim>\<open>int(s)\<close> on text. Around the numeral \<^verbatim>\<open>int\<close> skips the six ASCII whitespace characters and
  the whitespace beyond ASCII, not U+001C to U+001F. Then come an optional sign, \<^verbatim>\<open>+\<close> or
  \<^verbatim>\<open>-\<close>, and decimal digits of any script in which single underscores may separate digits. A
  numeral of more than 640 digits that exceeds the interpreter's limit is refused. Every refusal
  is a \<^verbatim>\<open>ValueError\<close>.
\<close>

definition is_int_space :: "int \<Rightarrow> bool" where
  "is_int_space c = (c \<in> {9, 10, 11, 12, 13, 32} \<or> (128 \<le> c \<and> is_space c))"

definition strip_int :: "py_str \<Rightarrow> py_str" where
  "strip_int s = rev (dropWhile is_int_space (rev (dropWhile is_int_space s)))"

fun valid_digits :: "py_config \<Rightarrow> py_str \<Rightarrow> bool" where
  "valid_digits cfg [] = False"
| "valid_digits cfg [c] = is_digit cfg c"
| "valid_digits cfg (c # d # r) =
     (is_digit cfg c \<and> (if d = 95 then valid_digits cfg r else valid_digits cfg (d # r)))"

definition digits_value :: "py_config \<Rightarrow> py_str \<Rightarrow> int" where
  "digits_value cfg s =
     foldl (\<lambda>acc c. case decimal_of cfg c of None \<Rightarrow> acc | Some v \<Rightarrow> 10 * acc + v) 0 s"

definition too_long :: "py_config \<Rightarrow> py_str \<Rightarrow> bool" where
  "too_long cfg s =
     (let digits = length (filter (is_digit cfg) s)
      in 640 < digits \<and> 0 < int_max_str_digits cfg \<and> int_max_str_digits cfg < digits)"

definition int_of_digits :: "py_config \<Rightarrow> py_str \<Rightarrow> py_exc + int" where
  "int_of_digits cfg s =
     (if valid_digits cfg s \<and> \<not> too_long cfg s then Inr (digits_value cfg s) else Inl ValueError)"

definition py_int :: "py_config \<Rightarrow> py_str \<Rightarrow> py_exc + int" where
  "py_int cfg s =
     (case strip_int s of
        [] \<Rightarrow> Inl ValueError
      | c # r \<Rightarrow>
          if c = 45 then (case int_of_digits cfg r of Inl e \<Rightarrow> Inl e | Inr v \<Rightarrow> Inr (- v))
          else if c = 43 then int_of_digits cfg r
          else int_of_digits cfg (c # r))"

text \<open>
  The pattern \<^verbatim>\<open>^\[(\d+)\]\s*(ITEM_ADD|ITEM_REMOVE)\s*\|\s*(\d+),\s*\((.*)\)\s*$\<close> matched at the start
  of a text; the result is the four groups, the second as the literal it matched. Every
  repetition is followed by a character outside its class, so only its longest match can
  succeed. \<open>match_tail\<close> is the end of the pattern, \<^verbatim>\<open>(.*)\)\s*$\<close>: the text up to the closing
  parenthesis that only whitespace follows, which must not hold a line feed (\<^verbatim>\<open>.\<close> does not
  match it).
\<close>

definition match_tail :: "py_str \<Rightarrow> py_str option" where
  "match_tail r =
     (case dropWhile is_space (rev r) of
        [] \<Rightarrow> None
      | c # g \<Rightarrow> if c = 41 \<and> 10 \<notin> set g then Some (rev g) else None)"

definition match_action :: "py_str \<Rightarrow> (string \<times> py_str) option" where
  "match_action r =
     (if take 8 r = text_of ''ITEM_ADD'' then Some (''ITEM_ADD'', drop 8 r)
      else if take 11 r = text_of ''ITEM_REMOVE'' then Some (''ITEM_REMOVE'', drop 11 r)
      else None)"

definition match_number :: "py_config \<Rightarrow> py_str \<Rightarrow> int \<Rightarrow> (py_str \<times> py_str) option" where
  "match_number cfg r stop =
     (let g = takeWhile (is_digit cfg) r in
      case dropWhile (is_digit cfg) r of
        [] \<Rightarrow> None
      | c # rest \<Rightarrow> if g \<noteq> [] \<and> c = stop then Some (g, rest) else None)"

definition match_char :: "int \<Rightarrow> py_str \<Rightarrow> py_str option" where
  "match_char c r = (case r of [] \<Rightarrow> None | d # rest \<Rightarrow> if d = c then Some rest else None)"

definition inventory_line_match ::
  "py_config \<Rightarrow> py_str \<Rightarrow> (py_str \<times> string \<times> py_str \<times> py_str) option" where
  "inventory_line_match cfg line =
     (case match_char 91 line of None \<Rightarrow> None | Some r1 \<Rightarrow>
      case match_number cfg r1 93 of None \<Rightarrow> None | Some (g1, r2) \<Rightarrow>
      case match_action (dropWhile is_space r2) of None \<Rightarrow> None | Some (g2, r3) \<Rightarrow>
      case match_char 124 (dropWhile is_space r3) of None \<Rightarrow> None | Some r4 \<Rightarrow>
      case match_number cfg (dropWhile is_space r4) 44 of None \<Rightarrow> None | Some (g3, r5) \<Rightarrow>
      case match_char 40 (dropWhile is_space r5) of None \<Rightarrow> None | Some r6 \<Rightarrow>
      case match_tail r6 of None \<Rightarrow> None | Some g4 \<Rightarrow> Some (g1, g2, g3, g4))"

text \<open>\<^verbatim>\<open>xs[i]\<close> for an index that is not negative.\<close>

definition py_index :: "'a list \<Rightarrow> nat \<Rightarrow> py_exc + 'a" where
  "py_index xs i = (if i < length xs then Inr (xs ! i) else Inl IndexError)"

text \<open>\<^verbatim>\<open>[token.strip() for token in items_blob.split(",") if token.strip()]\<close>.\<close>

definition items_tokens_of :: "py_str \<Rightarrow> py_str list" where
  "items_tokens_of items_blob = map strip (filter (\<lambda>token. strip token \<noteq> []) (split_comma items_blob))"

text \<open>
  The loop \<^verbatim>\<open>for idx in range(0, len(items_tokens), 2)\<close> from index \<open>idx\<close> on, with the pairs
  appended so far.
\<close>

function parse_items ::
  "py_config \<Rightarrow> py_str list \<Rightarrow> nat \<Rightarrow> (int \<times> int) list \<Rightarrow> py_exc + (int \<times> int) list" where
  "parse_items cfg items_tokens idx its =
     (if idx < length items_tokens then
        (case py_index items_tokens idx of Inl e \<Rightarrow> Inl e | Inr t1 \<Rightarrow>
         case py_int cfg t1 of Inl e \<Rightarrow> Inl e | Inr item_type_id \<Rightarrow>
         case py_index items_tokens (idx + 1) of Inl e \<Rightarrow> Inl e | Inr t2 \<Rightarrow>
         case py_int cfg t2 of Inl e \<Rightarrow> Inl e | Inr amt \<Rightarrow>
           parse_items cfg items_tokens (idx + 2) (its @ [(item_type_id, amt)]))
      else Inr its)"
  by pat_completeness auto
termination
  by (relation "measure (\<lambda>(cfg, items_tokens, idx, its). length items_tokens - idx)") auto

declare parse_items.simps [simp del]

text \<open>
  \<^verbatim>\<open>parse_inventory_line(line, line_no)\<close>. \<open>Inr None\<close> is the return of \<^verbatim>\<open>None\<close>, \<open>Inl\<close> an
  exception that leaves the function. The two \<^verbatim>\<open>try\<close> blocks catch \<^verbatim>\<open>ValueError\<close> only. The
  warnings written to the log are left out.
\<close>

definition parse_header :: "py_config \<Rightarrow> py_str \<Rightarrow> py_str \<Rightarrow> py_exc + (int \<times> int)" where
  "parse_header cfg g1 g3 =
     (case py_int cfg g1 of Inl e \<Rightarrow> Inl e | Inr ts \<Rightarrow>
      case py_int cfg g3 of Inl e \<Rightarrow> Inl e | Inr pid \<Rightarrow> Inr (ts, pid))"

definition parse_inventory_line ::
  "py_config \<Rightarrow> py_str \<Rightarrow> int option \<Rightarrow> py_exc + InventoryEvent option" where
  "parse_inventory_line cfg line ln =
     (let stripped = strip line in
      if stripped = [] then Inr None
      else
        (case inventory_line_match cfg stripped of
           None \<Rightarrow> Inr None
         | Some (g1, g2, g3, items_blob) \<Rightarrow>
             (case parse_header cfg g1 g3 of
                Inl e \<Rightarrow> if e = ValueError then Inr None else Inl e
              | Inr (ts, pid) \<Rightarrow>
                  (let items_tokens = items_tokens_of items_blob in
                   if length items_tokens mod 2 \<noteq> 0 then Inr None
                   else
                     (case parse_items cfg items_tokens 0 [] of
                        Inl e \<Rightarrow> if e = ValueError then Inr None else Inl e
                      | Inr its \<Rightarrow>
                          Inr (Some \<lparr>timestamp = ts, player_id = pid, action = g2, items = its,
                                     line_no = ln, raw_line = stripped\<rparr>))))))"

text \<open>
  CPython 3.11 as released: the limit of 4300 digits and the decimal digits of Unicode 14.0.0,
  which beyond ASCII are the 65 runs of ten that start at these code points.
\<close>

definition unicode_14_decimal_starts :: "int list" where
  "unicode_14_decimal_starts =
     [0x660, 0x6F0, 0x7C0, 0x966, 0x9E6, 0xA66, 0xAE6, 0xB66, 0xBE6, 0xC66, 0xCE6, 0xD66, 0xDE6,
      0xE50, 0xED0, 0xF20, 0x1040, 0x1090, 0x17E0, 0x1810, 0x1946, 0x19D0, 0x1A80, 0x1A90, 0x1B50,
      0x1BB0, 0x1C40, 0x1C50, 0xA620, 0xA8D0, 0xA900, 0xA9D0, 0xA9F0, 0xAA50, 0xABF0, 0xFF10,
      0x104A0, 0x10D30, 0x11066, 0x110F0, 0x11136, 0x111D0, 0x112F0, 0x11450, 0x114D0, 0x11650,
      0x116C0, 0x11730, 0x118E0, 0x11950, 0x11C50, 0x11D50, 0x11DA0, 0x16A60, 0x16AC0, 0x16B50,
      0x1D7CE, 0x1D7D8, 0x1D7E2, 0x1D7EC, 0x1D7F6, 0x1E140, 0x1E2F0, 0x1E950, 0x1FBF0]"

definition cpython_3_11 :: py_config where
  "cpython_3_11 =
     \<lparr>int_max_str_digits = 4300,
      unicode_decimal = (\<lambda>c. case find (\<lambda>s. s \<le> c \<and> c < s + 10) unicode_14_decimal_starts of
                               None \<Rightarrow> None | Some s \<Rightarrow> Some (c - s))\<rparr>"

subsection \<open>No exception leaves the parser\<close>

lemma int_of_digits_exc: "int_of_digits cfg s = Inl e \<Longrightarrow> e = ValueError"
  by (auto simp: int_of_digits_def split: if_splits)

lemma py_int_exc: "py_int cfg s = Inl e \<Longrightarrow> e = ValueError"
  by (auto simp: py_int_def split: list.splits if_splits sum.splits dest: int_of_digits_exc)

lemma parse_header_exc: "parse_header cfg g1 g3 = Inl e \<Longrightarrow> e = ValueError"
  by (auto simp: parse_header_def split: sum.splits dest: py_int_exc)

lemma parse_items_exc:
  "even (length toks) \<Longrightarrow> even idx \<Longrightarrow> parse_items cfg toks idx its = Inl e \<Longrightarrow> e = ValueError"
proof (induction cfg toks idx its rule: parse_items.induct)
  case (1 cfg toks idx its)
  note unf = parse_items.simps [of cfg toks idx its]
  show ?case
  proof (cases "idx < length toks")
    case False
    with "1.prems" show ?thesis by (simp add: unf)
  next
    case True
    have "idx + 1 \<noteq> length toks"
      using "1.prems"(1,2) by (metis even_plus_one_iff)
    with True have nxt: "idx + 1 < length toks" by simp
    have i0: "py_index toks idx = Inr (toks ! idx)"
      and i1: "py_index toks (idx + 1) = Inr (toks ! (idx + 1))"
      using True nxt by (simp_all add: py_index_def)
    show ?thesis
    proof (cases "py_int cfg (toks ! idx)")
      case (Inl x)
      with "1.prems"(3) True i0 have "e = x" by (simp add: unf)
      with Inl show ?thesis by (simp add: py_int_exc)
    next
      case a: (Inr v1)
      show ?thesis
      proof (cases "py_int cfg (toks ! (idx + 1))")
        case (Inl x)
        with "1.prems"(3) True i0 i1 a have "e = x" by (simp add: unf)
        with Inl show ?thesis by (simp add: py_int_exc)
      next
        case b: (Inr v2)
        have rec: "parse_items cfg toks (idx + 2) (its @ [(v1, v2)]) = Inl e"
          using "1.prems"(3) True i0 i1 a b by (simp add: unf)
        show ?thesis
          by (rule "1.IH" [OF True i0 a i1 b "1.prems"(1) _ rec]) (use "1.prems"(2) in simp)
      qed
    qed
  qed
qed

lemma parse_inventory_line_returns: "\<exists>r. parse_inventory_line cfg line ln = Inr r"
proof -
  have hdr: "\<And>g1 g3 e. parse_header cfg g1 g3 = Inl e \<Longrightarrow> e = ValueError"
    by (rule parse_header_exc)
  have itm: "\<And>toks e. even (length toks) \<Longrightarrow> parse_items cfg toks 0 [] = Inl e \<Longrightarrow> e = ValueError"
    by (rule parse_items_exc [where idx = 0]) simp_all
  show ?thesis
    unfolding parse_inventory_line_def Let_def
    by (auto split: option.splits sum.splits prod.splits dest: hdr itm)
qed

subsection \<open>The line format\<close>

text \<open>
  The format of an inventory line in the words of the specification,
  \<^verbatim>\<open>[<timestamp>] <ACTION> | <player_id>, (<items>)\<close>: the timestamp and the player id are
  non-empty runs of decimal digits, the action is \<^verbatim>\<open>ITEM_ADD\<close> or \<^verbatim>\<open>ITEM_REMOVE\<close>, whitespace
  may stand where the format shows a space and after the closing parenthesis, and the items
  text holds no line feed.
\<close>

definition line_format :: "py_config \<Rightarrow> py_str \<Rightarrow> py_str \<Rightarrow> string \<Rightarrow> py_str \<Rightarrow> py_str \<Rightarrow> bool" where
  "line_format cfg line g1 g2 g3 g4 =
     (\<exists>w1 w2 w3 w4 w5.
        line = text_of ''['' @ g1 @ text_of '']'' @ w1 @ text_of g2 @ w2 @ text_of ''|'' @ w3
                 @ g3 @ text_of '','' @ w4 @ text_of ''('' @ g4 @ text_of '')'' @ w5
      \<and> g1 \<noteq> [] \<and> list_all (is_digit cfg) g1
      \<and> (g2 = ''ITEM_ADD'' \<or> g2 = ''ITEM_REMOVE'')
      \<and> g3 \<noteq> [] \<and> list_all (is_digit cfg) g3
      \<and> list_all is_space w1 \<and> list_all is_space w2 \<and> list_all is_space w3
      \<and> list_all is_space w4 \<and> list_all is_space w5
      \<and> 10 \<notin> set g4)"

lemma takeWhile_stop:
  "list_all P xs \<Longrightarrow> \<not> P y \<Longrightarrow> takeWhile P (xs @ y # ys) = xs"
  by (induction xs) simp_all

lemma dropWhile_stop:
  "list_all P xs \<Longrightarrow> \<not> P y \<Longrightarrow> dropWhile P (xs @ y # ys) = y # ys"
  by (induction xs) simp_all

lemma list_all_takeWhile: "list_all P (takeWhile P xs)"
  by (induction xs) simp_all

lemma not_space_chars:
  "\<not> is_space 73" "\<not> is_space 124" "\<not> is_space 40" "\<not> is_space 41"
  "\<not> is_space 91" "\<not> is_space 93" "\<not> is_space 44"
  by (simp_all add: is_space_def)

lemma not_digit_chars:
  "\<not> is_digit cfg 93" "\<not> is_digit cfg 44" "\<not> is_digit cfg 45" "\<not> is_digit cfg 43"
  "\<not> is_digit cfg 95"
  by (simp_all add: is_digit_def decimal_of_def)

lemma digit_not_space: "is_digit cfg c \<Longrightarrow> \<not> is_space c"
  by (auto simp: is_digit_def decimal_of_def is_space_def split: if_splits)

lemma int_space_is_space: "is_int_space c \<Longrightarrow> is_space c"
  by (auto simp: is_int_space_def is_space_def)

lemma match_char_iff: "match_char c r = Some rest \<longleftrightarrow> r = c # rest"
  by (cases r) (auto simp: match_char_def)

lemma match_number_iff:
  assumes "\<not> is_digit cfg stop"
  shows "match_number cfg r stop = Some (g, rest) \<longleftrightarrow>
           r = g @ stop # rest \<and> g \<noteq> [] \<and> list_all (is_digit cfg) g"
proof
  assume m: "match_number cfg r stop = Some (g, rest)"
  then have d: "dropWhile (is_digit cfg) r = stop # rest"
    and g: "g = takeWhile (is_digit cfg) r" "g \<noteq> []"
    by (auto simp: match_number_def Let_def split: list.splits if_splits)
  have "r = takeWhile (is_digit cfg) r @ dropWhile (is_digit cfg) r" by simp
  then have "r = g @ stop # rest" by (simp only: d g(1))
  then show "r = g @ stop # rest \<and> g \<noteq> [] \<and> list_all (is_digit cfg) g"
    using g by (simp add: list_all_takeWhile)
next
  assume a: "r = g @ stop # rest \<and> g \<noteq> [] \<and> list_all (is_digit cfg) g"
  then have "takeWhile (is_digit cfg) r = g" "dropWhile (is_digit cfg) r = stop # rest"
    using assms by (simp_all add: takeWhile_stop dropWhile_stop)
  with a show "match_number cfg r stop = Some (g, rest)"
    by (simp add: match_number_def)
qed

lemma match_action_iff:
  "match_action r = Some (g2, rest) \<longleftrightarrow>
     (g2 = ''ITEM_ADD'' \<or> g2 = ''ITEM_REMOVE'') \<and> r = text_of g2 @ rest"
proof
  assume m: "match_action r = Some (g2, rest)"
  show "(g2 = ''ITEM_ADD'' \<or> g2 = ''ITEM_REMOVE'') \<and> r = text_of g2 @ rest"
  proof (cases "take 8 r = text_of ''ITEM_ADD''")
    case True
    with m have "g2 = ''ITEM_ADD''" "rest = drop 8 r" by (simp_all add: match_action_def)
    moreover have "r = take 8 r @ drop 8 r" by simp
    ultimately show ?thesis using True by metis
  next
    case False
    with m have t: "take 11 r = text_of ''ITEM_REMOVE''" and "g2 = ''ITEM_REMOVE''" "rest = drop 11 r"
      by (simp_all add: match_action_def split: if_splits)
    moreover have "r = take 11 r @ drop 11 r" by simp
    ultimately show ?thesis by metis
  qed
next
  assume "(g2 = ''ITEM_ADD'' \<or> g2 = ''ITEM_REMOVE'') \<and> r = text_of g2 @ rest"
  then show "match_action r = Some (g2, rest)"
    by (auto simp: match_action_def text_of_def)
qed

lemma match_tail_iff:
  "match_tail r = Some g \<longleftrightarrow>
     (\<exists>w. r = g @ text_of '')'' @ w \<and> list_all is_space w \<and> 10 \<notin> set g)"
proof
  assume m: "match_tail r = Some g"
  then obtain g' where d: "dropWhile is_space (rev r) = 41 # g'"
    and g: "g = rev g'" "10 \<notin> set g'"
    by (auto simp: match_tail_def split: list.splits if_splits)
  have "rev r = takeWhile is_space (rev r) @ dropWhile is_space (rev r)" by simp
  then have "rev r = takeWhile is_space (rev r) @ 41 # g'" by (simp only: d)
  then have "rev (rev r) = rev (takeWhile is_space (rev r) @ 41 # g')" by (rule arg_cong)
  then have "r = g @ text_of '')'' @ rev (takeWhile is_space (rev r))"
    by (simp add: g text_of_def)
  moreover have "list_all is_space (rev (takeWhile is_space (rev r)))"
    by (simp add: list_all_takeWhile)
  ultimately show "\<exists>w. r = g @ text_of '')'' @ w \<and> list_all is_space w \<and> 10 \<notin> set g"
    using g by auto
next
  assume "\<exists>w. r = g @ text_of '')'' @ w \<and> list_all is_space w \<and> 10 \<notin> set g"
  then obtain w where r: "r = g @ text_of '')'' @ w" and w: "list_all is_space w" and n: "10 \<notin> set g"
    by blast
  have "dropWhile is_space (rev r) = 41 # rev g"
    unfolding r using w by (simp add: dropWhile_stop not_space_chars text_of_def)
  then show "match_tail r = Some g"
    using n by (simp add: match_tail_def)
qed

lemma skip_spaces_split: "\<exists>w. r = w @ dropWhile is_space r \<and> list_all is_space w"
  by (rule exI [of _ "takeWhile is_space r"]) (simp add: list_all_takeWhile)

lemma inventory_line_match_format:
  "inventory_line_match cfg line = Some (g1, g2, g3, g4) \<Longrightarrow> line_format cfg line g1 g2 g3 g4"
proof -
  assume m: "inventory_line_match cfg line = Some (g1, g2, g3, g4)"
  then obtain r1 r2 r3 r4 r5 r6 where
    s1: "match_char 91 line = Some r1"
    and s2: "match_number cfg r1 93 = Some (g1, r2)"
    and s3: "match_action (dropWhile is_space r2) = Some (g2, r3)"
    and s4: "match_char 124 (dropWhile is_space r3) = Some r4"
    and s5: "match_number cfg (dropWhile is_space r4) 44 = Some (g3, r5)"
    and s6: "match_char 40 (dropWhile is_space r5) = Some r6"
    and s7: "match_tail r6 = Some g4"
    unfolding inventory_line_match_def by (auto split: option.splits prod.splits)
  from s1 have t1: "line = 91 # r1" by (simp add: match_char_iff)
  from s2 have t2: "r1 = g1 @ 93 # r2" and d1: "g1 \<noteq> []" "list_all (is_digit cfg) g1"
    by (simp_all add: match_number_iff not_digit_chars)
  from skip_spaces_split [of r2] obtain w1 where
    t3: "r2 = w1 @ dropWhile is_space r2" and w1: "list_all is_space w1" by blast
  from s3 have a: "g2 = ''ITEM_ADD'' \<or> g2 = ''ITEM_REMOVE''"
    and t4: "dropWhile is_space r2 = text_of g2 @ r3"
    by (simp_all add: match_action_iff)
  from skip_spaces_split [of r3] obtain w2 where
    t5: "r3 = w2 @ dropWhile is_space r3" and w2: "list_all is_space w2" by blast
  from s4 have t6: "dropWhile is_space r3 = 124 # r4" by (simp add: match_char_iff)
  from skip_spaces_split [of r4] obtain w3 where
    t7: "r4 = w3 @ dropWhile is_space r4" and w3: "list_all is_space w3" by blast
  from s5 have t8: "dropWhile is_space r4 = g3 @ 44 # r5"
    and d3: "g3 \<noteq> []" "list_all (is_digit cfg) g3"
    by (simp_all add: match_number_iff not_digit_chars)
  from skip_spaces_split [of r5] obtain w4 where
    t9: "r5 = w4 @ dropWhile is_space r5" and w4: "list_all is_space w4" by blast
  from s6 have t10: "dropWhile is_space r5 = 40 # r6" by (simp add: match_char_iff)
  from s7 obtain w5 where t11: "r6 = g4 @ text_of '')'' @ w5" and w5: "list_all is_space w5"
    and n: "10 \<notin> set g4"
    by (auto simp: match_tail_iff)
  have r5: "r5 = w4 @ text_of ''('' @ g4 @ text_of '')'' @ w5"
    using t9 unfolding t10 t11 by (simp add: text_of_def)
  have r4: "r4 = w3 @ g3 @ text_of '','' @ w4 @ text_of ''('' @ g4 @ text_of '')'' @ w5"
    using t7 unfolding t8 r5 by (simp add: text_of_def)
  have r3: "r3 = w2 @ text_of ''|'' @ w3 @ g3 @ text_of '','' @ w4 @ text_of ''('' @ g4
                 @ text_of '')'' @ w5"
    using t5 unfolding t6 r4 by (simp add: text_of_def)
  have r2: "r2 = w1 @ text_of g2 @ w2 @ text_of ''|'' @ w3 @ g3 @ text_of '','' @ w4
                 @ text_of ''('' @ g4 @ text_of '')'' @ w5"
    using t3 unfolding t4 r3 by simp
  have "line = text_of ''['' @ g1 @ text_of '']'' @ w1 @ text_of g2 @ w2 @ text_of ''|'' @ w3
                 @ g3 @ text_of '','' @ w4 @ text_of ''('' @ g4 @ text_of '')'' @ w5"
    unfolding t1 t2 r2 by (simp add: text_of_def)
  then show ?thesis
    unfolding line_format_def using d1 a d3 w1 w2 w3 w4 w5 n by blast
qed

lemma line_format_match:
  "line_format cfg line g1 g2 g3 g4 \<Longrightarrow> inventory_line_match cfg line = Some (g1, g2, g3, g4)"
proof -
  assume "line_format cfg line g1 g2 g3 g4"
  then obtain w1 w2 w3 w4 w5 where
    t: "line = text_of ''['' @ g1 @ text_of '']'' @ w1 @ text_of g2 @ w2 @ text_of ''|'' @ w3
                 @ g3 @ text_of '','' @ w4 @ text_of ''('' @ g4 @ text_of '')'' @ w5"
    and d1: "g1 \<noteq> []" "list_all (is_digit cfg) g1"
    and a: "g2 = ''ITEM_ADD'' \<or> g2 = ''ITEM_REMOVE''"
    and d3: "g3 \<noteq> []" "list_all (is_digit cfg) g3"
    and w: "list_all is_space w1" "list_all is_space w2" "list_all is_space w3"
      "list_all is_space w4" "list_all is_space w5"
    and n: "10 \<notin> set g4"
    unfolding line_format_def by blast
  define r6 where "r6 = g4 @ text_of '')'' @ w5"
  define r5 where "r5 = w4 @ 40 # r6"
  define r4 where "r4 = w3 @ g3 @ 44 # r5"
  define r3 where "r3 = w2 @ 124 # r4"
  define r2 where "r2 = w1 @ text_of g2 @ r3"
  define r1 where "r1 = g1 @ 93 # r2"
  have tx: "line = 91 # r1"
    unfolding t r1_def r2_def r3_def r4_def r5_def r6_def by (simp add: text_of_def)
  have s1: "match_char 91 line = Some r1"
    by (simp add: match_char_iff tx)
  have s2: "match_number cfg r1 93 = Some (g1, r2)"
    by (simp add: match_number_iff not_digit_chars r1_def d1)
  obtain g2' where g2: "text_of g2 = 73 # g2'" using a by (auto simp: text_of_def)
  have k2: "dropWhile is_space r2 = text_of g2 @ r3"
    unfolding r2_def g2 using w(1) by (simp add: dropWhile_stop not_space_chars)
  have s3: "match_action (dropWhile is_space r2) = Some (g2, r3)"
    unfolding k2 using a by (simp add: match_action_iff)
  have k3: "dropWhile is_space r3 = 124 # r4"
    unfolding r3_def using w(2) by (simp add: dropWhile_stop not_space_chars)
  have s4: "match_char 124 (dropWhile is_space r3) = Some r4"
    unfolding k3 by (simp add: match_char_iff)
  obtain c g3' where g3: "g3 = c # g3'" using d3(1) by (cases g3) auto
  then have c: "\<not> is_space c" using d3(2) by (auto dest: digit_not_space)
  have k4: "dropWhile is_space r4 = g3 @ 44 # r5"
    unfolding r4_def g3 using w(3) c by (simp add: dropWhile_stop)
  have s5: "match_number cfg (dropWhile is_space r4) 44 = Some (g3, r5)"
    unfolding k4 by (simp add: match_number_iff not_digit_chars d3)
  have k5: "dropWhile is_space r5 = 40 # r6"
    unfolding r5_def using w(4) by (simp add: dropWhile_stop not_space_chars)
  have s6: "match_char 40 (dropWhile is_space r5) = Some r6"
    unfolding k5 by (simp add: match_char_iff)
  have s7: "match_tail r6 = Some g4"
    unfolding match_tail_iff r6_def using w(5) n by blast
  show ?thesis
    unfolding inventory_line_match_def by (simp add: s1 s2 s3 s4 s5 s6 s7)
qed

lemma inventory_line_match_iff:
  "inventory_line_match cfg line = Some (g1, g2, g3, g4) \<longleftrightarrow> line_format cfg line g1 g2 g3 g4"
  using inventory_line_match_format line_format_match by blast

subsection \<open>Numerals and tokens\<close>

text \<open>A token that \<^verbatim>\<open>int\<close> accepts, and its value; pairing up a list of values.\<close>

definition is_int_token :: "py_config \<Rightarrow> py_str \<Rightarrow> bool" where
  "is_int_token cfg t = (case py_int cfg t of Inl e \<Rightarrow> False | Inr v \<Rightarrow> True)"

definition token_value :: "py_config \<Rightarrow> py_str \<Rightarrow> int" where
  "token_value cfg t = (case py_int cfg t of Inl e \<Rightarrow> 0 | Inr v \<Rightarrow> v)"

fun pairs_of :: "int list \<Rightarrow> (int \<times> int) list" where
  "pairs_of (a # b # r) = (a, b) # pairs_of r"
| "pairs_of [a] = []"
| "pairs_of [] = []"

lemma py_int_token:
  "py_int cfg t = (if is_int_token cfg t then Inr (token_value cfg t) else Inl ValueError)"
proof (cases "py_int cfg t")
  case (Inl e)
  then have "e = ValueError" by (rule py_int_exc)
  with Inl show ?thesis by (simp add: is_int_token_def)
next
  case (Inr v)
  then show ?thesis by (simp add: is_int_token_def token_value_def)
qed

lemma parse_header_tokens:
  "parse_header cfg g1 g3 =
     (if is_int_token cfg g1 \<and> is_int_token cfg g3
      then Inr (token_value cfg g1, token_value cfg g3) else Inl ValueError)"
  unfolding parse_header_def py_int_token [of cfg g1] py_int_token [of cfg g3] by simp

lemma valid_digits_all: "xs \<noteq> [] \<Longrightarrow> list_all (is_digit cfg) xs \<Longrightarrow> valid_digits cfg xs"
  by (induction cfg xs rule: valid_digits.induct) (auto simp: not_digit_chars)

lemma strip_int_digits: "g \<noteq> [] \<Longrightarrow> list_all (is_digit cfg) g \<Longrightarrow> strip_int g = g"
proof -
  assume ne: "g \<noteq> []" and d: "list_all (is_digit cfg) g"
  have nsp: "\<not> is_int_space c" if "is_digit cfg c" for c
    using that digit_not_space int_space_is_space by blast
  have "is_digit cfg (hd g)" using ne d by (cases g) simp_all
  then have a: "dropWhile is_int_space g = g"
    using ne by (cases g) (simp_all add: nsp)
  have "is_digit cfg (last g)" using ne d by (simp add: list_all_iff)
  then have "\<not> is_int_space (hd (rev g))" using ne by (simp add: hd_rev nsp)
  then have "dropWhile is_int_space (rev g) = rev g"
    using ne by (cases "rev g") simp_all
  then show ?thesis by (simp add: strip_int_def a)
qed

text \<open>A numeral of the line pattern is refused by \<^verbatim>\<open>int\<close> only for its length.\<close>

lemma digits_token:
  assumes "g \<noteq> []" and "list_all (is_digit cfg) g"
  shows "is_int_token cfg g \<longleftrightarrow> \<not> too_long cfg g"
proof -
  obtain c r where g: "g = c # r" using assms(1) by (cases g) auto
  have "is_digit cfg c" using assms(2) by (simp add: g)
  then have c: "c \<noteq> 45" "c \<noteq> 43"
    using not_digit_chars [of cfg] by auto
  have "py_int cfg g = int_of_digits cfg g"
    unfolding py_int_def strip_int_digits [OF assms] using c by (simp add: g)
  then show ?thesis
    using valid_digits_all [OF assms] by (simp add: is_int_token_def int_of_digits_def)
qed

lemma parse_items_eq:
  "even (length toks) \<Longrightarrow> even idx \<Longrightarrow>
     parse_items cfg toks idx its =
       (if list_all (is_int_token cfg) (drop idx toks)
        then Inr (its @ pairs_of (map (token_value cfg) (drop idx toks)))
        else Inl ValueError)"
proof (induction cfg toks idx its rule: parse_items.induct)
  case (1 cfg toks idx its)
  note unf = parse_items.simps [of cfg toks idx its]
  show ?case
  proof (cases "idx < length toks")
    case False
    then show ?thesis by (simp add: unf)
  next
    case True
    have "idx + 1 \<noteq> length toks"
      using "1.prems"(1,2) by (metis even_plus_one_iff)
    with True have nxt: "idx + 1 < length toks" by simp
    have i0: "py_index toks idx = Inr (toks ! idx)"
      and i1: "py_index toks (idx + 1) = Inr (toks ! (idx + 1))"
      using True nxt by (simp_all add: py_index_def)
    have dr: "drop idx toks = toks ! idx # toks ! (idx + 1) # drop (idx + 2) toks"
      using True nxt by (simp add: Cons_nth_drop_Suc)
    show ?thesis
    proof (cases "py_int cfg (toks ! idx)")
      case (Inl x)
      then have "x = ValueError" by (rule py_int_exc)
      moreover have "\<not> is_int_token cfg (toks ! idx)"
        using Inl by (simp add: is_int_token_def)
      ultimately show ?thesis
        using Inl True i0 by (simp add: unf dr)
    next
      case a: (Inr v1)
      show ?thesis
      proof (cases "py_int cfg (toks ! (idx + 1))")
        case (Inl x)
        then have "x = ValueError" by (rule py_int_exc)
        moreover have "\<not> is_int_token cfg (toks ! (idx + 1))"
          using Inl by (simp add: is_int_token_def)
        ultimately show ?thesis
          using Inl True i0 i1 a by (simp add: unf dr)
      next
        case b: (Inr v2)
        have rec: "parse_items cfg toks idx its = parse_items cfg toks (idx + 2) (its @ [(v1, v2)])"
          using True i0 i1 a b by (simp add: unf)
        have ih: "parse_items cfg toks (idx + 2) (its @ [(v1, v2)]) =
           (if list_all (is_int_token cfg) (drop (idx + 2) toks)
            then Inr ((its @ [(v1, v2)]) @ pairs_of (map (token_value cfg) (drop (idx + 2) toks)))
            else Inl ValueError)"
          by (rule "1.IH" [OF True i0 a i1 b "1.prems"(1)]) (use "1.prems"(2) in simp)
        have tk: "is_int_token cfg (toks ! idx)" "is_int_token cfg (toks ! (idx + 1))"
          "token_value cfg (toks ! idx) = v1" "token_value cfg (toks ! (idx + 1)) = v2"
          using a b by (simp_all add: is_int_token_def token_value_def)
        show ?thesis
          unfolding rec ih dr using tk by simp
      qed
    qed
  qed
qed

lemma line_format_unique:
  "line_format cfg line g1 g2 g3 g4 \<Longrightarrow> line_format cfg line h1 h2 h3 h4 \<Longrightarrow>
     h1 = g1 \<and> h2 = g2 \<and> h3 = g3 \<and> h4 = g4"
  by (simp add: inventory_line_match_iff [symmetric])

lemma line_format_digits:
  "line_format cfg line g1 g2 g3 g4 \<Longrightarrow>
     g1 \<noteq> [] \<and> list_all (is_digit cfg) g1 \<and> g3 \<noteq> [] \<and> list_all (is_digit cfg) g3"
  unfolding line_format_def by blast

text \<open>The tokens of an accepted line: the two numerals of the header and the items tokens.\<close>

definition tokens_ok :: "py_config \<Rightarrow> py_str \<Rightarrow> py_str \<Rightarrow> py_str \<Rightarrow> bool" where
  "tokens_ok cfg g1 g3 g4 =
     (is_int_token cfg g1 \<and> is_int_token cfg g3
      \<and> even (length (items_tokens_of g4)) \<and> list_all (is_int_token cfg) (items_tokens_of g4))"

lemma parse_formatted:
  assumes "line_format cfg (strip line) g1 g2 g3 g4"
  shows "parse_inventory_line cfg line ln =
     (if tokens_ok cfg g1 g3 g4
      then Inr (Some \<lparr>timestamp = token_value cfg g1, player_id = token_value cfg g3, action = g2,
                       items = pairs_of (map (token_value cfg) (items_tokens_of g4)),
                       line_no = ln, raw_line = strip line\<rparr>)
      else Inr None)"
proof -
  have m: "inventory_line_match cfg (strip line) = Some (g1, g2, g3, g4)"
    by (rule line_format_match [OF assms])
  have ne: "strip line \<noteq> []"
    using assms unfolding line_format_def by (auto simp: text_of_def)
  note h = parse_header_tokens [of cfg g1 g3]
  show ?thesis
  proof (cases "is_int_token cfg g1 \<and> is_int_token cfg g3")
    case False
    then show ?thesis
      using ne by (auto simp: parse_inventory_line_def Let_def m h tokens_ok_def)
  next
    case hd: True
    show ?thesis
    proof (cases "even (length (items_tokens_of g4))")
      case True
      have "parse_items cfg (items_tokens_of g4) 0 [] =
         (if list_all (is_int_token cfg) (items_tokens_of g4)
          then Inr (pairs_of (map (token_value cfg) (items_tokens_of g4))) else Inl ValueError)"
        using parse_items_eq [OF True, of 0 cfg "[]"] by simp
      then show ?thesis
        using True ne hd
        by (simp add: parse_inventory_line_def Let_def m h even_iff_mod_2_eq_zero tokens_ok_def)
    next
      case False
      then show ?thesis
        using ne hd
        by (simp add: parse_inventory_line_def Let_def m h even_iff_mod_2_eq_zero tokens_ok_def)
    qed
  qed
qed

lemma parse_unformatted:
  assumes "\<not> (\<exists>g1 g2 g3 g4. line_format cfg (strip line) g1 g2 g3 g4)"
  shows "parse_inventory_line cfg line ln = Inr None"
proof -
  have "inventory_line_match cfg (strip line) = None"
  proof (cases "inventory_line_match cfg (strip line)")
    case None
    then show ?thesis .
  next
    case (Some g)
    obtain g1 g2 g3 g4 where "g = (g1, g2, g3, g4)" by (cases g) auto
    with Some assms show ?thesis by (auto dest: inventory_line_match_format)
  qed
  then show ?thesis
    by (simp add: parse_inventory_line_def Let_def)
qed

lemma strip_keeps:
  assumes "s \<noteq> []" and "\<not> is_space (hd s)" and "\<not> is_space (last s)"
  shows "strip s = s"
proof -
  have a: "dropWhile is_space s = s"
    using assms(1,2) by (cases s) auto
  have "dropWhile is_space (rev s) = rev s"
    using assms(1,3) by (cases "rev s") (auto simp: hd_rev [symmetric])
  then show ?thesis
    by (simp add: strip_def a)
qed

text \<open>
  A timestamp of 4301 digits: the line has the format, and under the limit of 4300 digits
  \<^verbatim>\<open>int\<close> refuses the timestamp, so the line is rejected.
\<close>

lemma long_timestamp_is_rejected:
  "parse_inventory_line cpython_3_11
     (text_of ''['' @ replicate 4301 49 @ text_of ''] ITEM_ADD | 7, (5, 3)'') ln = Inr None"
proof -
  let ?g = "replicate 4301 (49 :: int)"
  let ?line = "text_of ''['' @ ?g @ text_of ''] ITEM_ADD | 7, (5, 3)''"
  have d: "is_digit cpython_3_11 49" "is_digit cpython_3_11 55"
    by (simp_all add: is_digit_def decimal_of_def)
  have s: "strip ?line = ?line"
    by (rule strip_keeps) (simp_all add: text_of_def is_space_def)
  have "?line = text_of ''['' @ ?g @ text_of '']'' @ [32] @ text_of ''ITEM_ADD'' @ [32]
          @ text_of ''|'' @ [32] @ text_of ''7'' @ text_of '','' @ [32] @ text_of ''(''
          @ text_of ''5, 3'' @ text_of '')'' @ []"
    by (simp add: text_of_def)
  moreover have "list_all (is_digit cpython_3_11) ?g" "?g \<noteq> []"
    using d by (simp_all add: list_all_iff)
  moreover have "list_all (is_digit cpython_3_11) (text_of ''7'')"
    using d by (simp add: text_of_def)
  moreover have "list_all is_space [32]" "10 \<notin> set (text_of ''5, 3'')"
    by (simp_all add: is_space_def text_of_def)
  ultimately have f: "line_format cpython_3_11 (strip ?line) ?g ''ITEM_ADD'' (text_of ''7'')
      (text_of ''5, 3'')"
    unfolding s line_format_def
    by (intro exI [of _ "[32]"] exI [of _ "[]"]) (simp add: text_of_def)
  have "filter (is_digit cpython_3_11) ?g = ?g"
    using d by (simp add: filter_id_conv)
  then have "too_long cpython_3_11 ?g"
    by (simp add: too_long_def cpython_3_11_def)
  then have "\<not> is_int_token cpython_3_11 ?g"
    using digits_token [of ?g cpython_3_11] d by (simp add: list_all_iff)
  then have "\<not> tokens_ok cpython_3_11 ?g (text_of ''7'') (text_of ''5, 3'')"
    by (simp add: tokens_ok_def)
  then show ?thesis
    by (simp only: parse_formatted [OF f] if_False)
qed

subsection \<open>Acceptance and rejection\<close>

text \<open>
  The rule of the specification for the items list, word for word: an even number of
  comma-separated tokens, every one of which parses as an integer.
\<close>

definition spec_items_ok :: "py_config \<Rightarrow> py_str \<Rightarrow> bool" where
  "spec_items_ok cfg items_blob =
     (even (length (split_comma items_blob))
      \<and> list_all (is_int_token cfg) (split_comma items_blob))"

text \<open>
  C3, as stated, fails on the line \<^verbatim>\<open>[1] ITEM_ADD | 7, (5,,3)\<close>: its items list has three
  comma-separated tokens, an odd number, and the second is empty and no integer; the code drops
  the empty token and returns the event with the pair \<open>(5, 3)\<close>.
\<close>

theorem empty_item_token_is_dropped:
  "inventory_line_match cpython_3_11 (text_of ''[1] ITEM_ADD | 7, (5,,3)'')
     = Some (text_of ''1'', ''ITEM_ADD'', text_of ''7'', text_of ''5,,3'')
   \<and> length (split_comma (text_of ''5,,3'')) = 3
   \<and> \<not> spec_items_ok cpython_3_11 (text_of ''5,,3'')
   \<and> parse_inventory_line cpython_3_11 (text_of ''[1] ITEM_ADD | 7, (5,,3)'') (Some 1) =
       Inr (Some \<lparr>timestamp = 1, player_id = 7, action = ''ITEM_ADD'', items = [(5, 3)],
                  line_no = Some 1, raw_line = text_of ''[1] ITEM_ADD | 7, (5,,3)''\<rparr>)"
  by code_simp

text \<open>
  C3, amended. For every input text, whatever the interpreter's decimal digits and limit on the
  length of a numeral, \<^verbatim>\<open>parse_inventory_line\<close> returns without an exception. It returns
  \<^verbatim>\<open>None\<close> exactly when the stripped line does not have the line format (a blank line does
  not), or \<^verbatim>\<open>int\<close> refuses the timestamp or the player id, which it does only for their
  length, or the items list, once its empty and whitespace-only tokens are dropped, has an odd
  number of tokens, or \<^verbatim>\<open>int\<close> refuses one of the remaining tokens. Otherwise it returns the
  event of the timestamp, the action, the player id and the remaining tokens taken in pairs,
  with the line number and the stripped line.
\<close>

theorem parse_inventory_line_exact:
  "(\<exists>r. parse_inventory_line cfg line ln = Inr r)
   \<and> (parse_inventory_line cfg line ln = Inr None \<longleftrightarrow>
        \<not> (\<exists>g1 g2 g3 g4. line_format cfg (strip line) g1 g2 g3 g4
             \<and> is_int_token cfg g1 \<and> is_int_token cfg g3
             \<and> even (length (items_tokens_of g4))
             \<and> list_all (is_int_token cfg) (items_tokens_of g4)))
   \<and> (strip line = [] \<longrightarrow> parse_inventory_line cfg line ln = Inr None)
   \<and> (line_format cfg (strip line) h1 h2 h3 h4 \<longrightarrow>
        (is_int_token cfg h1 \<longleftrightarrow> \<not> too_long cfg h1)
        \<and> (is_int_token cfg h3 \<longleftrightarrow> \<not> too_long cfg h3))
   \<and> (line_format cfg (strip line) h1 h2 h3 h4
        \<and> is_int_token cfg h1 \<and> is_int_token cfg h3
        \<and> even (length (items_tokens_of h4))
        \<and> list_all (is_int_token cfg) (items_tokens_of h4) \<longrightarrow>
      parse_inventory_line cfg line ln =
        Inr (Some \<lparr>timestamp = token_value cfg h1, player_id = token_value cfg h3, action = h2,
                   items = pairs_of (map (token_value cfg) (items_tokens_of h4)),
                   line_no = ln, raw_line = strip line\<rparr>))"
proof -
  have 1: "\<exists>r. parse_inventory_line cfg line ln = Inr r"
    by (rule parse_inventory_line_returns)
  have 2: "parse_inventory_line cfg line ln = Inr None \<longleftrightarrow>
        \<not> (\<exists>g1 g2 g3 g4. line_format cfg (strip line) g1 g2 g3 g4 \<and> tokens_ok cfg g1 g3 g4)"
  proof (cases "\<exists>g1 g2 g3 g4. line_format cfg (strip line) g1 g2 g3 g4")
    case False
    then show ?thesis using parse_unformatted [of cfg line ln] by blast
  next
    case True
    then obtain g1 g2 g3 g4 where f: "line_format cfg (strip line) g1 g2 g3 g4" by blast
    have u: "k1 = g1 \<and> k3 = g3 \<and> k4 = g4"
      if "line_format cfg (strip line) k1 k2 k3 k4" for k1 k2 k3 k4
      using line_format_unique [OF f that] by simp
    show ?thesis
    proof (cases "tokens_ok cfg g1 g3 g4")
      case True
      then have "parse_inventory_line cfg line ln \<noteq> Inr None"
        by (simp add: parse_formatted [OF f])
      with f True show ?thesis by blast
    next
      case False
      then have "parse_inventory_line cfg line ln = Inr None"
        by (simp add: parse_formatted [OF f])
      with False u show ?thesis by blast
    qed
  qed
  have 3: "parse_inventory_line cfg line ln = Inr None" if "strip line = []"
    using that by (simp add: parse_inventory_line_def)
  have 4: "(is_int_token cfg h1 \<longleftrightarrow> \<not> too_long cfg h1)
        \<and> (is_int_token cfg h3 \<longleftrightarrow> \<not> too_long cfg h3)"
    if "line_format cfg (strip line) h1 h2 h3 h4"
    using line_format_digits [OF that] by (simp add: digits_token)
  have 5: "parse_inventory_line cfg line ln =
        Inr (Some \<lparr>timestamp = token_value cfg h1, player_id = token_value cfg h3, action = h2,
                   items = pairs_of (map (token_value cfg) (items_tokens_of h4)),
                   line_no = ln, raw_line = strip line\<rparr>)"
    if "line_format cfg (strip line) h1 h2 h3 h4" "tokens_ok cfg h1 h3 h4"
    using that(2) by (simp add: parse_formatted [OF that(1)])
  show ?thesis
    using 1 2 3 4 5 unfolding tokens_ok_def by blast
qed

text \<open>
  The line \<^verbatim>\<open>[1000] ITEM_ADD | 7, (5,<U+00A0>3)\<close>, with a no-break space before the amount.
\<close>

definition line_nbsp :: py_str where
  "line_nbsp = text_of ''[1000] ITEM_ADD | 7, (5,'' @ [160] @ text_of ''3)''"

theorem parse_inventory_line_exact_witness:
  "line_format cpython_3_11 (strip line_nbsp) (text_of ''1000'') ''ITEM_ADD'' (text_of ''7'')
     (text_of ''5,'' @ [160] @ text_of ''3'')
   \<and> is_int_token cpython_3_11 (text_of ''1000'') \<and> is_int_token cpython_3_11 (text_of ''7'')
   \<and> even (length (items_tokens_of (text_of ''5,'' @ [160] @ text_of ''3'')))
   \<and> list_all (is_int_token cpython_3_11) (items_tokens_of (text_of ''5,'' @ [160] @ text_of ''3''))
   \<and> parse_inventory_line cpython_3_11 line_nbsp (Some 1) =
        Inr (Some \<lparr>timestamp = 1000, player_id = 7, action = ''ITEM_ADD'', items = [(5, 3)],
                   line_no = Some 1, raw_line = line_nbsp\<rparr>)"
proof -
  have f: "line_format cpython_3_11 (strip line_nbsp) (text_of ''1000'') ''ITEM_ADD'' (text_of ''7'')
     (text_of ''5,'' @ [160] @ text_of ''3'')"
    unfolding inventory_line_match_iff [symmetric] by code_simp
  have a: "is_int_token cpython_3_11 (text_of ''1000'')" "is_int_token cpython_3_11 (text_of ''7'')"
    "even (length (items_tokens_of (text_of ''5,'' @ [160] @ text_of ''3'')))"
    "list_all (is_int_token cpython_3_11) (items_tokens_of (text_of ''5,'' @ [160] @ text_of ''3''))"
    by code_simp+
  have v: "token_value cpython_3_11 (text_of ''1000'') = 1000"
    "token_value cpython_3_11 (text_of ''7'') = 7"
    "pairs_of (map (token_value cpython_3_11) (items_tokens_of (text_of ''5,'' @ [160] @ text_of ''3'')))
       = [(5, 3)]"
    "strip line_nbsp = line_nbsp"
    by code_simp+
  show ?thesis
    using parse_inventory_line_exact [of cpython_3_11 line_nbsp "Some 1"
        "text_of ''1000''" "''ITEM_ADD''" "text_of ''7''" "text_of ''5,'' @ [160] @ text_of ''3''"] f a
    by (simp only: v simp_thms)
qed

subsection \<open>The sign of the amounts\<close>
















end
